theory Spec2Isabelle
  imports Main "HOL-Library.Sublist"
begin

section \<open>Python strings\<close>

text \<open>
  A Python \<open>str\<close> is modelled as a \<open>string\<close>, the list of its characters. The
  character classes and the case mapping below are Python's on the ASCII range, which is
  what the standards document and the generated files are written in. The two pictographs
  the parser looks for (the cross mark U+274C and the check mark U+2705) are carried as
  their UTF-8 bytes; bytes above 127 belong to no class and have no case.
\<close>

definition whitespace :: string where
  "whitespace =
     [CHR 0x09, CHR 0x0A, CHR 0x0B, CHR 0x0C, CHR 0x0D, CHR 0x1C, CHR 0x1D, CHR 0x1E, CHR 0x1F,
      CHR '' '']"

definition digits :: string where
  "digits = ''0123456789''"

definition ascii_uppercase :: string where
  "ascii_uppercase = ''ABCDEFGHIJKLMNOPQRSTUVWXYZ''"

definition ascii_lowercase :: string where
  "ascii_lowercase = ''abcdefghijklmnopqrstuvwxyz''"

definition isspace :: "char \<Rightarrow> bool" where
  "isspace c \<longleftrightarrow> c \<in> set whitespace"

definition isdigit :: "char \<Rightarrow> bool" where
  "isdigit c \<longleftrightarrow> c \<in> set digits"

definition isupper :: "char \<Rightarrow> bool" where
  "isupper c \<longleftrightarrow> c \<in> set ascii_uppercase"

definition islower :: "char \<Rightarrow> bool" where
  "islower c \<longleftrightarrow> c \<in> set ascii_lowercase"

text \<open>The class \<open>\w\<close> of the \<open>re\<close> module: letters, digits and the underscore.\<close>

definition isword :: "char \<Rightarrow> bool" where
  "isword c \<longleftrightarrow> isupper c \<or> islower c \<or> isdigit c \<or> c = CHR ''_''"

definition lower_char :: "char \<Rightarrow> char" where
  "lower_char c =
     (case map_of (zip ascii_uppercase ascii_lowercase) c of Some l \<Rightarrow> l | None \<Rightarrow> c)"

text \<open>\<open>s.lower()\<close>\<close>

definition lower :: "string \<Rightarrow> string" where
  "lower s = map lower_char s"

text \<open>\<open>s.lstrip()\<close>, \<open>s.rstrip()\<close> and \<open>s.strip()\<close>\<close>

definition lstrip :: "string \<Rightarrow> string" where
  "lstrip s = dropWhile isspace s"

definition rstrip :: "string \<Rightarrow> string" where
  "rstrip s = rev (dropWhile isspace (rev s))"

definition strip :: "string \<Rightarrow> string" where
  "strip s = rstrip (lstrip s)"

text \<open>\<open>s.startswith(p)\<close> and \<open>s.endswith(p)\<close>\<close>

definition startswith :: "string \<Rightarrow> string \<Rightarrow> bool" where
  "startswith p s \<longleftrightarrow> take (length p) s = p"

definition endswith :: "string \<Rightarrow> string \<Rightarrow> bool" where
  "endswith p s \<longleftrightarrow> startswith (rev p) (rev s)"

text \<open>\<open>x in s\<close> on strings: \<open>x\<close> occurs in \<open>s\<close> as a contiguous run.\<close>

fun contains :: "string \<Rightarrow> string \<Rightarrow> bool" where
  "contains x [] = (x = [])"
| "contains x (c # cs) = (startswith x (c # cs) \<or> contains x cs)"

text \<open>\<open>s.split(sep)\<close> for a separator of one character: never an empty list.\<close>

fun split_char :: "char \<Rightarrow> string \<Rightarrow> string list" where
  "split_char sep [] = [[]]"
| "split_char sep (c # cs) =
     (if c = sep then [] # split_char sep cs
      else (case split_char sep cs of [] \<Rightarrow> [[c]] | x # xs \<Rightarrow> (c # x) # xs))"

text \<open>\<open>sep.join(xs)\<close>\<close>

fun join :: "string \<Rightarrow> string list \<Rightarrow> string" where
  "join sep [] = []"
| "join sep [x] = x"
| "join sep (x # y # ys) = x @ sep @ join sep (y # ys)"

text \<open>
  The first occurrence of a non-empty separator: the text before it and the text after it.
\<close>

fun find_first :: "string \<Rightarrow> string \<Rightarrow> (string \<times> string) option" where
  "find_first sep [] = None"
| "find_first sep (c # cs) =
     (if startswith sep (c # cs) then Some ([], drop (length sep) (c # cs))
      else (case find_first sep cs of
              None \<Rightarrow> None
            | Some (before, after) \<Rightarrow> Some (c # before, after)))"

text \<open>\<open>s.split(sep, maxsplit)\<close> for a non-empty separator.\<close>

fun split_max :: "string \<Rightarrow> nat \<Rightarrow> string \<Rightarrow> string list" where
  "split_max sep 0 s = [s]"
| "split_max sep (Suc n) s =
     (case find_first sep s of
        None \<Rightarrow> [s]
      | Some (before, after) \<Rightarrow> before # split_max sep n after)"

text \<open>The line feed, and the fence of a code block: three grave accents.\<close>

definition NL :: char where
  "NL = CHR 0x0A"

definition FENCE :: string where
  "FENCE = [CHR 0x60, CHR 0x60, CHR 0x60]"

text \<open>The UTF-8 bytes of the cross mark U+274C and of the check mark U+2705.\<close>

definition CROSS_MARK :: string where
  "CROSS_MARK = [CHR 0xE2, CHR 0x9D, CHR 0x8C]"

definition CHECK_MARK :: string where
  "CHECK_MARK = [CHR 0xE2, CHR 0x9C, CHR 0x85]"

section \<open>A dictionary in insertion order\<close>

text \<open>
  A Python \<open>dict\<close> iterates in the order its keys were first inserted; assigning to a
  key that is present replaces the value where it stands.
\<close>

fun dict_set :: "('k \<times> 'v) list \<Rightarrow> 'k \<Rightarrow> 'v \<Rightarrow> ('k \<times> 'v) list" where
  "dict_set [] k v = [(k, v)]"
| "dict_set ((k', v') # d) k v = (if k' = k then (k, v) # d else (k', v') # dict_set d k v)"

section \<open>The classification tables of the parser\<close>

definition SECTION_PRIORITIES :: "(string \<times> int) list" where
  "SECTION_PRIORITIES =
     [(''Security'', 100),
      (''Pre-commit'', 90),
      (''Bash Standards'', 70),
      (''Python Standards'', 70),
      (''Design Principles'', 60),
      (''YAML'', 50),
      (''JSON'', 50),
      (''Documentation'', 40)]"

definition SECTION_SCOPES :: "(string \<times> string list) list" where
  "SECTION_SCOPES =
     [(''Bash Standards'', [''*.sh'', ''*.bash'']),
      (''Python Standards'', [''*.py'']),
      (''YAML'', [''*.yaml'']),
      (''JSON'', [''*.json''])]"

text \<open>
  \<open>_get_priority\<close> and \<open>_get_scope\<close>: the loop over the table's items returns at the first
  key that occurs in the section title, both in lower case.
\<close>

fun get_priority_loop :: "(string \<times> int) list \<Rightarrow> string \<Rightarrow> int" where
  "get_priority_loop [] section = 50"
| "get_priority_loop ((key, priority) # rest) section =
     (if contains (lower key) (lower section) then priority
      else get_priority_loop rest section)"

definition get_priority :: "string \<Rightarrow> int" where
  "get_priority section = get_priority_loop SECTION_PRIORITIES section"

fun get_scope_loop :: "(string \<times> string list) list \<Rightarrow> string \<Rightarrow> string list" where
  "get_scope_loop [] section = [''all'']"
| "get_scope_loop ((key, scope) # rest) section =
     (if contains (lower key) (lower section) then scope
      else get_scope_loop rest section)"

definition get_scope :: "string \<Rightarrow> string list" where
  "get_scope section = get_scope_loop SECTION_SCOPES section"

text \<open>\<open>_get_tags\<close>: every tag one of whose keywords occurs in the title, in table order.\<close>

definition tag_map :: "(string \<times> string list) list" where
  "tag_map =
     [(''bash'', [''bash'', ''shell'', ''script'']),
      (''python'', [''python'']),
      (''security'', [''security'', ''secret'', ''credential'']),
      (''yaml'', [''yaml'']),
      (''json'', [''json'']),
      (''documentation'', [''documentation'', ''doc''])]"

definition get_tags :: "string \<Rightarrow> string list" where
  "get_tags section =
     map fst (filter (\<lambda>(tag, keywords). \<exists>keyword \<in> set keywords. contains keyword (lower section))
       tag_map)"

section \<open>The rule model\<close>

text \<open>
  The dataclasses \<open>CodeExample\<close> and \<open>Rule\<close>. The fields carry a prefix, since a field of
  a record is a constant of the theory and \<open>section\<close> and \<open>subsection\<close> are keywords.
\<close>

record code_example =
  ex_code :: string
  ex_language :: string
  ex_is_correct :: bool
  ex_explanation :: "string option"

record rule =
  r_section :: string
  r_subsection :: "string option"
  r_title :: string
  r_content :: string
  r_examples :: "code_example list"
  r_priority :: int
  r_scope :: "string list"
  r_tags :: "string list"

section \<open>The document splitter\<close>

text \<open>Truth of \<open>if current_section:\<close>: neither \<open>None\<close> nor the empty string.\<close>

fun truthy :: "string option \<Rightarrow> bool" where
  "truthy None = False"
| "truthy (Some s) = (s \<noteq> [])"

text \<open>
  \<open>re.sub(r"^\d+\.\s*", "", s)\<close>: a leading run of digits followed by a dot is removed with
  the white space after it. The anchor matches at the start of the string only, so there is
  at most one replacement.
\<close>

definition strip_section_number :: "string \<Rightarrow> string" where
  "strip_section_number s =
     (let r = dropWhile isdigit s in
      if takeWhile isdigit s \<noteq> [] \<and> startswith ''.'' r then dropWhile isspace (drop 1 r) else s)"

text \<open>\<open>re.sub(r"^\d+\.\d+\s*", "", s)\<close>\<close>

definition strip_subsection_number :: "string \<Rightarrow> string" where
  "strip_subsection_number s =
     (let r = dropWhile isdigit s; r' = dropWhile isdigit (drop 1 r) in
      if takeWhile isdigit s \<noteq> [] \<and> startswith ''.'' r \<and> takeWhile isdigit (drop 1 r) \<noteq> []
      then dropWhile isspace r' else s)"

text \<open>
  The title of a header line: \<open>line[3:].strip()\<close> (\<open>line[4:].strip()\<close> for a subsection)
  without its number.
\<close>

definition section_title_of :: "string \<Rightarrow> string" where
  "section_title_of line = strip_section_number (strip (drop 3 line))"

definition subsection_title_of :: "string \<Rightarrow> string" where
  "subsection_title_of line = strip_subsection_number (strip (drop 4 line))"

text \<open>
  \<open>_split_into_sections\<close>: the loop over the lines, with the dictionary, the current title
  and the lines collected for it as its state; the last section is saved after the loop.
\<close>

fun split_into_sections_loop ::
  "string list \<Rightarrow> (string \<times> string) list \<Rightarrow> string option \<Rightarrow> string list \<Rightarrow> (string \<times> string) list"
where
  "split_into_sections_loop [] sections current_section current_content =
     (if truthy current_section
      then dict_set sections (the current_section) (join [NL] current_content)
      else sections)"
| "split_into_sections_loop (line # lines) sections current_section current_content =
     (if startswith ''## '' line then
        split_into_sections_loop lines
          (if truthy current_section
           then dict_set sections (the current_section) (join [NL] current_content)
           else sections)
          (Some (section_title_of line))
          []
      else if truthy current_section then
        split_into_sections_loop lines sections current_section (current_content @ [line])
      else
        split_into_sections_loop lines sections current_section current_content)"

definition split_into_sections :: "string \<Rightarrow> (string \<times> string) list" where
  "split_into_sections content = split_into_sections_loop (split_char NL content) [] None []"

text \<open>\<open>_split_into_subsections\<close>: the same loop on the headers of level three.\<close>

fun split_into_subsections_loop ::
  "string list \<Rightarrow> (string \<times> string) list \<Rightarrow> string option \<Rightarrow> string list \<Rightarrow> (string \<times> string) list"
where
  "split_into_subsections_loop [] subsections current_subsection current_content =
     (if truthy current_subsection
      then dict_set subsections (the current_subsection) (join [NL] current_content)
      else subsections)"
| "split_into_subsections_loop (line # lines) subsections current_subsection current_content =
     (if startswith ''### '' line then
        split_into_subsections_loop lines
          (if truthy current_subsection
           then dict_set subsections (the current_subsection) (join [NL] current_content)
           else subsections)
          (Some (subsection_title_of line))
          []
      else if truthy current_subsection then
        split_into_subsections_loop lines subsections current_subsection (current_content @ [line])
      else
        split_into_subsections_loop lines subsections current_subsection current_content)"

definition split_into_subsections :: "string \<Rightarrow> (string \<times> string) list" where
  "split_into_subsections content =
     split_into_subsections_loop (split_char NL content) [] None []"

section \<open>The rule extractor\<close>

text \<open>
  One match of the pattern \<open>```(\w+)?\n(.*?)```\<close> (with \<open>re.DOTALL\<close>) at the start of
  \<open>s\<close>: the fence, the longest run of word characters (the group is \<open>None\<close> when the run
  is empty), a line feed, and the shortest text up to the next fence. The result is the
  language group, the code group and the text after the match.
\<close>

definition match_fence :: "string \<Rightarrow> (string option \<times> string \<times> string) option" where
  "match_fence s =
     (if startswith FENCE s then
        (let w = takeWhile isword (drop 3 s); r = dropWhile isword (drop 3 s) in
         if startswith [NL] r then
           (case find_first FENCE (drop 1 r) of
              None \<Rightarrow> None
            | Some (body, rest) \<Rightarrow> Some (if w = [] then None else Some w, body, rest))
         else None)
      else None)"

lemma find_first_length: "find_first sep s = Some (b, a) \<Longrightarrow> length a \<le> length s"
  by (induction s arbitrary: b) (auto split: if_splits option.splits)

lemma match_fence_length: "match_fence s = Some (l, b, r) \<Longrightarrow> length r < length s"
proof -
  assume m: "match_fence s = Some (l, b, r)"
  then have f: "startswith FENCE s"
    by (simp add: match_fence_def split: if_splits)
  then have "3 \<le> length s"
    by (cases "length s < 3") (auto simp: startswith_def FENCE_def)
  moreover from m f have "find_first FENCE (drop 1 (dropWhile isword (drop 3 s))) = Some (b, r)"
    by (auto simp: match_fence_def Let_def split: if_splits option.splits)
  then have "length r \<le> length (drop 1 (dropWhile isword (drop 3 s)))"
    by (rule find_first_length)
  moreover have "length (dropWhile isword (drop 3 s)) \<le> length (drop 3 s)"
    by (rule length_dropWhile_le)
  ultimately show ?thesis by simp
qed

text \<open>
  \<open>re.split\<close> with that pattern: the text before the first match, then for every match its
  two groups and the text up to the next match. The matches are found from left to right,
  each search starting where the last match ended.
\<close>

function split_fences :: "string \<Rightarrow> string option list" where
  "split_fences [] = [Some []]"
| "split_fences (c # cs) =
     (case match_fence (c # cs) of
        Some (lang, body, rest) \<Rightarrow> Some [] # lang # Some body # split_fences rest
      | None \<Rightarrow>
          (case split_fences cs of
             Some t # parts \<Rightarrow> Some (c # t) # parts
           | parts \<Rightarrow> Some [c] # parts))"
  by pat_completeness auto
termination
  by (relation "measure length") (auto dest: match_fence_length)

text \<open>
  \<open>_is_correct_example\<close>. The apostrophe of "don't" is the character 0x27.
\<close>

definition incorrect_indicators :: "string list" where
  "incorrect_indicators =
     [''wrong'', ''incorrect'', ''bad'', ''don'' @ [CHR 0x27] @ ''t'', ''never'', ''avoid'',
      CROSS_MARK]"

definition correct_indicators :: "string list" where
  "correct_indicators = [''correct'', ''right'', ''good'', ''do this'', CHECK_MARK]"

text \<open>\<open>xs[-3:]\<close>\<close>

definition last3 :: "'a list \<Rightarrow> 'a list" where
  "last3 xs = drop (length xs - 3) xs"

text \<open>
  The text the indicators are looked for in: the last three lines of the stripped text
  before the block, joined by blanks, in lower case (\<open>last_lines\<close> and \<open>last_text\<close>).
\<close>

definition last_text :: "string \<Rightarrow> string" where
  "last_text preceding_text =
     (let last_lines = last3 (split_char NL (strip preceding_text))
      in lower (join '' '' last_lines))"

definition is_correct_example :: "string \<Rightarrow> string \<Rightarrow> bool" where
  "is_correct_example preceding_text code =
     (if list_ex (\<lambda>indicator. contains indicator (last_text preceding_text)) incorrect_indicators
      then False
      else if list_ex (\<lambda>indicator. contains indicator (last_text preceding_text)) correct_indicators
      then True
      else if contains ''# WRONG'' code \<or> contains ''# BAD'' code
              \<or> contains (''# '' @ CROSS_MARK) code then False
      else if contains ''# CORRECT'' code \<or> contains ''# GOOD'' code
              \<or> contains (''# '' @ CHECK_MARK) code then True
      else True)"

text \<open>
  \<open>_extract_content_and_examples\<close>: the loop over \<open>enumerate(parts)\<close>, with the index,
  the element before the current one (\<open>parts[i - 1]\<close>) and the two lists as its state. The
  elements at the indices 0, 3, 6, ... and 2, 5, 8, ... are strings, never \<open>None\<close>.
\<close>

fun text_of :: "string option \<Rightarrow> string" where
  "text_of None = []"
| "text_of (Some s) = s"

fun extract_loop ::
  "nat \<Rightarrow> string option \<Rightarrow> string option list \<Rightarrow> string list \<Rightarrow> code_example list
   \<Rightarrow> string list \<times> code_example list"
where
  "extract_loop i prev [] text_parts examples = (text_parts, examples)"
| "extract_loop i prev (part # parts) text_parts examples =
     (if i mod 3 = 0 then
        extract_loop (i + 1) part parts (text_parts @ [text_of part]) examples
      else if i mod 3 = 2 then
        (let language = (if truthy prev then the prev else ''text'');
             code = strip (text_of part);
             preceding_text = (if text_parts \<noteq> [] then last text_parts else []);
             is_correct = is_correct_example preceding_text code
         in extract_loop (i + 1) part parts text_parts
              (examples @
               [\<lparr>ex_code = code, ex_language = language, ex_is_correct = is_correct,
                 ex_explanation = None\<rparr>]))
      else extract_loop (i + 1) part parts text_parts examples)"

definition extract_content_and_examples :: "string \<Rightarrow> string \<times> code_example list" where
  "extract_content_and_examples content =
     (case extract_loop 0 None (split_fences content) [] [] of
        (text_parts, examples) \<Rightarrow> (concat text_parts, examples))"

text \<open>
  \<open>_extract_title\<close>. \<open>re.sub(r"^[-*]\s*", "", s)\<close> removes a leading bullet with the white
  space after it; \<open>re.split(r"[.!?]\s+", s)\<close> cuts at every end-of-sentence mark that is
  followed by white space, and removes the mark and all the white space after it.
\<close>

definition strip_bullet :: "string \<Rightarrow> string" where
  "strip_bullet s =
     (if startswith ''-'' s \<or> startswith ''*'' s then dropWhile isspace (drop 1 s) else s)"

function split_sentences :: "string \<Rightarrow> string list" where
  "split_sentences [] = [[]]"
| "split_sentences (c # cs) =
     (if c \<in> set ''.!?'' \<and> takeWhile isspace cs \<noteq> [] then
        [] # split_sentences (dropWhile isspace cs)
      else
        (case split_sentences cs of [] \<Rightarrow> [[c]] | x # xs \<Rightarrow> (c # x) # xs))"
  by pat_completeness auto
termination
  by (relation "measure length") (auto simp: length_dropWhile_le less_Suc_eq_le)

definition extract_title :: "string \<Rightarrow> string" where
  "extract_title text =
     (let sentences = split_sentences (strip_bullet (strip text)) in
      if sentences \<noteq> [] then
        (let title = strip (hd sentences) in
         if length title > 60 then take 57 title @ ''...'' else title)
      else ''Rule'')"

text \<open>
  \<open>_create_rule\<close>: \<open>None\<close> when the text without the code blocks is blank. The title is the
  subsection when there is one, the first sentence of the text otherwise.
\<close>

definition create_rule ::
  "string \<Rightarrow> string option \<Rightarrow> string \<Rightarrow> int \<Rightarrow> string list \<Rightarrow> string list \<Rightarrow> rule option"
where
  "create_rule section subsection content priority scope tags =
     (case extract_content_and_examples content of
        (text_content, examples) \<Rightarrow>
          if strip text_content = [] then None
          else Some
            \<lparr>r_section = section,
             r_subsection = subsection,
             r_title = (if truthy subsection then the subsection else extract_title text_content),
             r_content = strip text_content,
             r_examples = examples,
             r_priority = priority,
             r_scope = scope,
             r_tags = tags\<rparr>)"

text \<open>
  \<open>_parse_section\<close>: one rule for every subsection when the section has subsections, one
  rule for the whole section otherwise; a rule that is \<open>None\<close> is not appended.
\<close>

definition parse_section :: "string \<Rightarrow> string \<Rightarrow> rule list" where
  "parse_section section_title section_content =
     (let priority = get_priority section_title;
          scope = get_scope section_title;
          tags = get_tags section_title;
          subsections = split_into_subsections section_content
      in if subsections \<noteq> [] then
           List.map_filter
             (\<lambda>(subsection_title, subsection_content).
                create_rule section_title (Some subsection_title) subsection_content
                  priority scope tags)
             subsections
         else
           (case create_rule section_title None section_content priority scope tags of
              None \<Rightarrow> []
            | Some rule \<Rightarrow> [rule]))"

text \<open>\<open>parse\<close>, on the text of the document.\<close>

definition parse :: "string \<Rightarrow> rule list" where
  "parse content =
     concat (map (\<lambda>(section_title, section_content). parse_section section_title section_content)
       (split_into_sections content))"

text \<open>
  Two notions the statements below use: the text of a body without its code blocks (the
  first component of \<open>_extract_content_and_examples\<close>), and the title \<open>_extract_title\<close>
  derives before it limits the length (\<open>sentences[0].strip()\<close>).
\<close>

definition prose :: "string \<Rightarrow> string" where
  "prose content = fst (extract_content_and_examples content)"

definition first_sentence :: "string \<Rightarrow> string" where
  "first_sentence text = strip (hd (split_sentences (strip_bullet (strip text))))"

text \<open>
  The two loops of the splitter differ in the test for a header line and in the title they
  take from it. The loop below has both as parameters; the facts about the splitter are
  proved for it once.
\<close>

fun heading_loop ::
  "(string \<Rightarrow> bool) \<Rightarrow> (string \<Rightarrow> string) \<Rightarrow> string list \<Rightarrow> (string \<times> string) list \<Rightarrow>
   string option \<Rightarrow> string list \<Rightarrow> (string \<times> string) list"
where
  "heading_loop is_header title_of [] d cur content =
     (if truthy cur then dict_set d (the cur) (join [NL] content) else d)"
| "heading_loop is_header title_of (line # lines) d cur content =
     (if is_header line then
        heading_loop is_header title_of lines
          (if truthy cur then dict_set d (the cur) (join [NL] content) else d)
          (Some (title_of line)) []
      else if truthy cur then heading_loop is_header title_of lines d cur (content @ [line])
      else heading_loop is_header title_of lines d cur content)"

section \<open>The generator: merging the file maps\<close>

text \<open>
  A file map is a dictionary from output paths to contents. \<open>all_files.update(files)\<close>
  assigns the items of \<open>files\<close> to \<open>all_files\<close> in their order.
\<close>

type_synonym file_map = "(string \<times> string) list"

definition dict_update :: "('k \<times> 'v) list \<Rightarrow> ('k \<times> 'v) list \<Rightarrow> ('k \<times> 'v) list" where
  "dict_update d files = foldl (\<lambda>d (k, v). dict_set d k v) d files"

text \<open>
  A transformer renders the rules with templates that are read from the templates
  directory, so \<open>transform\<close> is a parameter here: a function from the rules to the file map,
  or to the message of the exception it raised. The roster is the dictionary that
  \<open>SyncGenerator.__init__\<close> builds, in its insertion order.
\<close>

type_synonym transformer = "rule list \<Rightarrow> string + file_map"

definition transformers ::
  "transformer \<Rightarrow> transformer \<Rightarrow> transformer \<Rightarrow> transformer \<Rightarrow> (string \<times> transformer) list"
where
  "transformers cursor claude copilot aider =
     [(''Cursor'', cursor), (''Claude'', claude), (''GitHub Copilot'', copilot), (''Aider'', aider)]"

text \<open>
  Step 2 of \<open>sync\<close>: the loop over the roster, with \<open>all_files\<close> as its state. An exception
  of a transformer ends the step (\<open>sync\<close> reports it and returns \<open>False\<close>).
\<close>

fun transform_all :: "(string \<times> transformer) list \<Rightarrow> rule list \<Rightarrow> file_map \<Rightarrow> string + file_map" where
  "transform_all [] rules all_files = Inr all_files"
| "transform_all ((tool_name, transformer) # rest) rules all_files =
     (case transformer rules of
        Inl e \<Rightarrow> Inl e
      | Inr files \<Rightarrow> transform_all rest rules (dict_update all_files files))"

section \<open>The validator\<close>

text \<open>
  The messages of the validator, one constructor for every format string of the source,
  with the values the string is built from (the path first).
\<close>

datatype message =
    Invalid_YAML_syntax string string
  | Missing_YAML_frontmatter string
  | Invalid_frontmatter_structure string
  | Invalid_frontmatter_YAML string string
  | Missing_priority string
  | Missing_globs string
  | Unclosed_code_fence string
  | Heading_hierarchy_skip string nat nat
  | Trailing_whitespace string nat
  | Missing_final_newline string
  | Line_too_long string nat nat

record validator =
  errors :: "message list"
  warnings :: "message list"

definition add_error :: "validator \<Rightarrow> message \<Rightarrow> validator" where
  "add_error v m = v\<lparr>errors := errors v @ [m]\<rparr>"

definition add_warning :: "validator \<Rightarrow> message \<Rightarrow> validator" where
  "add_warning v m = v\<lparr>warnings := warnings v @ [m]\<rparr>"

text \<open>
  The values \<open>yaml.safe_load\<close> returns: \<open>None\<close>, booleans, integers, strings, lists,
  dictionaries and sets; \<open>YOther\<close> stands for a float, a date or binary data. The loader
  itself is PyYAML's, so it is a parameter of the validator: a function from the text to
  the value, or to the message of the \<open>YAMLError\<close> it raised.
\<close>

datatype yaml_value =
    YNull
  | YBool bool
  | YInt int
  | YOther
  | YStr string
  | YSeq "yaml_value list"
  | YMap "(yaml_value \<times> yaml_value) list"
  | YSet "yaml_value list"

type_synonym loader = "string \<Rightarrow> string + yaml_value"

datatype exn = TypeError

text \<open>
  \<open>key in metadata\<close> for a string \<open>key\<close>: a key of a dictionary, an element of a list or
  set, a substring of a string; on every other value Python raises \<open>TypeError\<close>.
\<close>

fun py_in :: "string \<Rightarrow> yaml_value \<Rightarrow> exn + bool" where
  "py_in key (YMap items) = Inr (YStr key \<in> fst ` set items)"
| "py_in key (YSeq xs) = Inr (YStr key \<in> set xs)"
| "py_in key (YSet xs) = Inr (YStr key \<in> set xs)"
| "py_in key (YStr s) = Inr (contains key s)"
| "py_in key _ = Inl TypeError"

text \<open>
  \<open>Path(filepath).suffix\<close> on a POSIX path: the name is the last component that is neither
  empty nor a dot, and the suffix starts at the last dot of the name, when that dot is
  neither its first nor its last character.
\<close>

definition path_name :: "string \<Rightarrow> string" where
  "path_name filepath =
     (let parts = filter (\<lambda>x. x \<noteq> [] \<and> x \<noteq> ''.'') (split_char CHR ''/'' filepath)
      in if parts = [] then [] else last parts)"

definition suffix_of :: "string \<Rightarrow> string" where
  "suffix_of filepath =
     (let name = path_name filepath;
          i = length name - 1 - length (takeWhile (\<lambda>c. c \<noteq> CHR ''.'') (rev name))
      in if CHR ''.'' \<in> set name \<and> 0 < i \<and> i < length name - 1 then drop i name else [])"

text \<open>
  \<open>re.findall(r"```", content)\<close>: the occurrences of the fence from left to right, each
  search starting after the last occurrence.
\<close>

fun count_fences :: "string \<Rightarrow> nat" where
  "count_fences (a # b # c # cs) =
     (if [a, b, c] = FENCE then Suc (count_fences cs) else count_fences (b # c # cs))"
| "count_fences cs = 0"

text \<open>
  \<open>re.findall(r"^(#{1,6})\s+", content, re.MULTILINE)\<close>, as the lengths of the groups: at
  the start of a line, a run of one to six hash signs that is followed by a white space
  character (the line feed is one). \<open>bol\<close> tells whether the position is the start of a
  line.
\<close>

fun heading_levels :: "bool \<Rightarrow> string \<Rightarrow> nat list" where
  "heading_levels bol [] = []"
| "heading_levels bol (c # cs) =
     (let k = length (takeWhile (\<lambda>x. x = CHR ''#'') (c # cs));
          r = dropWhile (\<lambda>x. x = CHR ''#'') (c # cs)
      in (if bol \<and> 1 \<le> k \<and> k \<le> 6 \<and> takeWhile isspace r \<noteq> [] then [k] else [])
         @ heading_levels (c = NL) cs)"

text \<open>The loop over \<open>range(1, len(levels))\<close>: the pairs of a level and a next level that skips.\<close>

fun hierarchy_skips :: "nat list \<Rightarrow> (nat \<times> nat) list" where
  "hierarchy_skips (a # b # rest) =
     (if b > a + 1 then [(a, b)] else []) @ hierarchy_skips (b # rest)"
| "hierarchy_skips levels = []"

definition validate_markdown :: "validator \<Rightarrow> string \<Rightarrow> string \<Rightarrow> validator" where
  "validate_markdown v filepath content =
     (let v1 = (if count_fences content mod 2 \<noteq> 0
                then add_error v (Unclosed_code_fence filepath) else v)
      in foldl (\<lambda>v (a, b). add_warning v (Heading_hierarchy_skip filepath a b)) v1
           (hierarchy_skips (heading_levels True content)))"

definition validate_yaml :: "loader \<Rightarrow> validator \<Rightarrow> string \<Rightarrow> string \<Rightarrow> validator" where
  "validate_yaml safe_load v filepath content =
     (case safe_load content of
        Inl e \<Rightarrow> add_error v (Invalid_YAML_syntax filepath e)
      | Inr value \<Rightarrow> v)"

text \<open>
  \<open>_validate_mdc\<close>. The \<open>try\<close> block catches \<open>yaml.YAMLError\<close> only: a \<open>TypeError\<close> of the
  two membership tests leaves the validator.
\<close>

definition validate_mdc :: "loader \<Rightarrow> validator \<Rightarrow> string \<Rightarrow> string \<Rightarrow> exn + validator" where
  "validate_mdc safe_load v filepath content =
     (if \<not> startswith ''---'' content then Inr (add_error v (Missing_YAML_frontmatter filepath))
      else
        (let parts = split_max ''---'' 2 content in
         if length parts < 3 then Inr (add_error v (Invalid_frontmatter_structure filepath))
         else
           (let frontmatter = parts ! 1; markdown_content = parts ! 2 in
            case safe_load frontmatter of
              Inl e \<Rightarrow>
                Inr (validate_markdown (add_error v (Invalid_frontmatter_YAML filepath e))
                       filepath markdown_content)
            | Inr metadata \<Rightarrow>
                (case py_in ''priority'' metadata of
                   Inl x \<Rightarrow> Inl x
                 | Inr has_priority \<Rightarrow>
                     (let v1 = (if \<not> has_priority
                                then add_warning v (Missing_priority filepath) else v) in
                      case py_in ''globs'' metadata of
                        Inl x \<Rightarrow> Inl x
                      | Inr has_globs \<Rightarrow>
                          (let v2 = (if \<not> has_globs
                                     then add_warning v1 (Missing_globs filepath) else v1)
                           in Inr (validate_markdown v2 filepath markdown_content)))))))"

text \<open>
  \<open>_validate_common\<close>: three loops that append warnings. The lines are numbered from 1.
\<close>

fun trailing_whitespace :: "nat \<Rightarrow> string list \<Rightarrow> nat list" where
  "trailing_whitespace i [] = []"
| "trailing_whitespace i (line # lines) =
     (if endswith '' '' line \<or> endswith [CHR 0x09] line then [i] else [])
     @ trailing_whitespace (i + 1) lines"

fun long_lines :: "bool \<Rightarrow> nat \<Rightarrow> string list \<Rightarrow> (nat \<times> nat) list" where
  "long_lines in_code_block i [] = []"
| "long_lines in_code_block i (line # lines) =
     (if startswith FENCE (strip line) then long_lines (\<not> in_code_block) (i + 1) lines
      else (if \<not> in_code_block \<and> length line > 120 then [(i, length line)] else [])
           @ long_lines in_code_block (i + 1) lines)"

definition validate_common :: "validator \<Rightarrow> string \<Rightarrow> string \<Rightarrow> validator" where
  "validate_common v filepath content =
     (let lines = split_char NL content;
          v1 = foldl (\<lambda>v i. add_warning v (Trailing_whitespace filepath i)) v
                 (trailing_whitespace 1 lines);
          v2 = (if content \<noteq> [] \<and> \<not> endswith [NL] content
                then add_warning v1 (Missing_final_newline filepath) else v1)
      in foldl (\<lambda>v (i, n). add_warning v (Line_too_long filepath i n)) v2
           (long_lines False 1 lines))"

definition validate_file :: "loader \<Rightarrow> validator \<Rightarrow> string \<Rightarrow> string \<Rightarrow> exn + validator" where
  "validate_file safe_load v filepath content =
     (let checked =
        (if suffix_of filepath = ''.yaml'' \<or> suffix_of filepath = ''.yml''
         then Inr (validate_yaml safe_load v filepath content)
         else if suffix_of filepath = ''.mdc'' then validate_mdc safe_load v filepath content
         else if suffix_of filepath = ''.md'' then Inr (validate_markdown v filepath content)
         else Inr v)
      in case checked of
           Inl x \<Rightarrow> Inl x
         | Inr v' \<Rightarrow> Inr (validate_common v' filepath content))"

text \<open>
  \<open>validate_all\<close>: both lists are emptied, the files are validated in the order of the
  file map, and the result is whether no error was appended. The lists are returned with
  the result, as they are the state of the validator after the call.
\<close>

fun validate_all_loop :: "loader \<Rightarrow> file_map \<Rightarrow> validator \<Rightarrow> exn + validator" where
  "validate_all_loop safe_load [] v = Inr v"
| "validate_all_loop safe_load ((filepath, content) # files) v =
     (case validate_file safe_load v filepath content of
        Inl x \<Rightarrow> Inl x
      | Inr v' \<Rightarrow> validate_all_loop safe_load files v')"

definition validate_all :: "loader \<Rightarrow> file_map \<Rightarrow> exn + (bool \<times> validator)" where
  "validate_all safe_load files =
     (case validate_all_loop safe_load files \<lparr>errors = [], warnings = []\<rparr> of
        Inl x \<Rightarrow> Inl x
      | Inr v \<Rightarrow> Inr (length (errors v) = 0, v))"

text \<open>
  PyYAML's results on the two frontmatter blocks that the examples below use: an empty
  document loads as \<open>None\<close>, and the block of the keys \<open>priority\<close> and \<open>globs\<close> (the latter
  with a double-quoted fence as its value) loads as a dictionary. The value on every other
  text is not used.
\<close>

definition frontmatter_with_fence :: string where
  "frontmatter_with_fence =
     [NL] @ ''priority: 1'' @ [NL] @ ''globs: '' @ [CHR 0x22] @ FENCE @ [CHR 0x22] @ [NL]"

definition yaml_sample :: loader where
  "yaml_sample text =
     (if text = [NL] then Inr YNull
      else if text = frontmatter_with_fence
      then Inr (YMap [(YStr ''priority'', YInt 1), (YStr ''globs'', YStr FENCE)])
      else Inl ''not tabulated'')"

text \<open>
  The files the Markdown check finds at fault: a Markdown file whose content, or a hybrid
  file whose body after the frontmatter block, holds an odd number of fences, and a hybrid
  file without a frontmatter block.
\<close>

definition mdc_flagged :: "string \<Rightarrow> bool" where
  "mdc_flagged c \<longleftrightarrow>
     \<not> startswith ''---'' c \<or> length (split_max ''---'' 2 c) < 3 \<or>
     odd (count_fences (split_max ''---'' 2 c ! 2))"

definition file_flagged :: "string \<Rightarrow> string \<Rightarrow> bool" where
  "file_flagged p c \<longleftrightarrow>
     (suffix_of p = ''.md'' \<and> odd (count_fences c)) \<or> (suffix_of p = ''.mdc'' \<and> mdc_flagged c)"

section \<open>The imperative style of the transformers\<close>

text \<open>
  \<open>\b\<close> at a position of the text: the character before the position (none at the start)
  and the character at the position (none at the end) differ in being word characters.
  \<open>prev\<close> tells whether the character before the position is a word character.
\<close>

definition word_boundary :: "bool \<Rightarrow> string \<Rightarrow> bool" where
  "word_boundary prev rest \<longleftrightarrow> prev \<noteq> (rest \<noteq> [] \<and> isword (hd rest))"

text \<open>
  A match of \<open>\bpattern\b\<close> with \<open>re.IGNORECASE\<close> at the start of \<open>s\<close>, for a pattern of
  literal characters.
\<close>

definition match_word :: "string \<Rightarrow> bool \<Rightarrow> string \<Rightarrow> bool" where
  "match_word pattern prev s \<longleftrightarrow>
     pattern \<noteq> [] \<and> length pattern \<le> length s \<and>
     lower (take (length pattern) s) = lower pattern \<and>
     word_boundary prev s \<and>
     word_boundary (isword (last (take (length pattern) s))) (drop (length pattern) s)"

text \<open>
  \<open>re.sub(r"\bpattern\b", replacement, text, flags=re.IGNORECASE)\<close>: the text is read from
  left to right; a match is replaced and the search goes on after it, every other character
  is copied.
\<close>

function re_sub_word :: "string \<Rightarrow> string \<Rightarrow> bool \<Rightarrow> string \<Rightarrow> string" where
  "re_sub_word pattern replacement prev [] = []"
| "re_sub_word pattern replacement prev (c # cs) =
     (if match_word pattern prev (c # cs)
      then replacement @
           re_sub_word pattern replacement
             (isword (last (take (length pattern) (c # cs)))) (drop (length pattern) (c # cs))
      else c # re_sub_word pattern replacement (isword c) cs)"
  by pat_completeness auto
termination
  by (relation "measure (\<lambda>(p, r, b, s). length s)") (auto simp: match_word_def)

text \<open>
  \<open>_make_imperative\<close>: the substitutions of the dictionary \<open>replacements\<close>, one after the
  other in its order, each on the result of the one before.
\<close>

definition replacements :: "(string \<times> string) list" where
  "replacements =
     [(''must'', ''MUST''),
      (''should'', ''MUST''),
      (''may'', ''CAN''),
      (''never'', ''NEVER''),
      (''always'', ''ALWAYS''),
      (''require'', ''REQUIRE''),
      (''do not'', ''DO NOT''),
      (''don'' @ [CHR 0x27] @ ''t'', ''DO NOT'')]"

definition make_imperative :: "string \<Rightarrow> string" where
  "make_imperative text =
     foldl (\<lambda>text (pattern, replacement). re_sub_word pattern replacement False text)
       text replacements"

text \<open>
  The transform in the words of the specification: one pass over the text that replaces
  every case-insensitive word-boundary occurrence of a word of the table by its replacement
  and leaves all other text unchanged.
\<close>

function replace_words :: "(string \<times> string) list \<Rightarrow> bool \<Rightarrow> string \<Rightarrow> string" where
  "replace_words table prev [] = []"
| "replace_words table prev (c # cs) =
     (case find (\<lambda>(pattern, replacement). match_word pattern prev (c # cs)) table of
        Some (pattern, replacement) \<Rightarrow>
          replacement @
          replace_words table
            (isword (last (take (length pattern) (c # cs)))) (drop (length pattern) (c # cs))
      | None \<Rightarrow> c # replace_words table (isword c) cs)"
  by pat_completeness auto
termination
  by (relation "measure (\<lambda>(t, b, s). length s)") (auto simp: find_Some_iff match_word_def)

text \<open>The table of the claim as it was stated: the table of the source without "require".\<close>

definition claimed_replacements :: "(string \<times> string) list" where
  "claimed_replacements =
     [(''must'', ''MUST''),
      (''should'', ''MUST''),
      (''never'', ''NEVER''),
      (''always'', ''ALWAYS''),
      (''may'', ''CAN''),
      (''do not'', ''DO NOT''),
      (''don'' @ [CHR 0x27] @ ''t'', ''DO NOT'')]"

text \<open>
  For the proof that the passes of \<open>_make_imperative\<close> amount to one pass, a text is cut
  into tokens: the longest runs of word characters, and every other character by itself. A
  pattern matches a list of tokens when its own tokens are, up to case, the first tokens of
  the list; \<open>replace_tokens\<close> is the pass of \<open>replace_words\<close> on tokens.
\<close>

function tokens :: "string \<Rightarrow> string list" where
  "tokens [] = []"
| "tokens (c # cs) =
     (if isword c then (c # takeWhile isword cs) # tokens (dropWhile isword cs)
      else [c] # tokens cs)"
  by pat_completeness auto
termination
  by (relation "measure length") (auto simp: length_dropWhile_le less_Suc_eq_le)

lemma tokens_eq_Nil: "tokens s = [] \<longleftrightarrow> s = []"
  by (cases s) simp_all

definition match_tokens :: "string \<Rightarrow> string list \<Rightarrow> bool" where
  "match_tokens pattern ts \<longleftrightarrow>
     pattern \<noteq> [] \<and> length (tokens (lower pattern)) \<le> length ts \<and>
     map lower (take (length (tokens (lower pattern))) ts) = tokens (lower pattern)"

function replace_tokens :: "(string \<times> string) list \<Rightarrow> string list \<Rightarrow> string list" where
  "replace_tokens table [] = []"
| "replace_tokens table (t # ts) =
     (case find (\<lambda>(pattern, replacement). match_tokens pattern (t # ts)) table of
        Some (pattern, replacement) \<Rightarrow>
          tokens replacement @
          replace_tokens table (drop (length (tokens (lower pattern))) (t # ts))
      | None \<Rightarrow> t # replace_tokens table ts)"
  by pat_completeness auto
termination
  by (relation "measure (\<lambda>(t, ts). length ts)")
    (auto simp: find_Some_iff match_tokens_def tokens_eq_Nil lower_def)

text \<open>
  A text that does not go on a word: it is empty or starts with a character that is no
  word character.
\<close>

definition fresh :: "string \<Rightarrow> bool" where
  "fresh s \<longleftrightarrow> s = [] \<or> \<not> isword (hd s)"

text \<open>
  The patterns the proof covers start and end with a word character, so that the two
  \<open>\b\<close> of the regular expression stand at the ends of tokens.
\<close>

definition good_pattern :: "string \<Rightarrow> bool" where
  "good_pattern p \<longleftrightarrow> p \<noteq> [] \<and> isword (hd p) \<and> isword (last p)"

definition good_table :: "(string \<times> string) list \<Rightarrow> bool" where
  "good_table T \<longleftrightarrow> (\<forall>(p, r) \<in> set T. good_pattern p)"

text \<open>
  A pass for the pattern \<open>p\<close> can be merged into the pass of a table before it when no
  token of \<open>p\<close> is, up to case, a token of a pattern or of a replacement of the table, and
  no replacement of the table is empty.
\<close>

definition absorbable :: "(string \<times> string) list \<Rightarrow> string \<Rightarrow> bool" where
  "absorbable T p \<longleftrightarrow>
     p \<noteq> [] \<and>
     (\<forall>(q, rq) \<in> set T.
        rq \<noteq> [] \<and>
        set (tokens (lower p)) \<inter> (set (tokens (lower q)) \<union> set (map lower (tokens rq))) = {})"

text \<open>
  A table whose every entry can be merged into the pass of the entries before it.
\<close>

definition sequential :: "(string \<times> string) list \<Rightarrow> bool" where
  "sequential T \<longleftrightarrow> (\<forall>i < length T. absorbable (take i T) (fst (T ! i)))"

section \<open>Facts about the string functions\<close>

lemmas char_class_defs = isspace_def isdigit_def isupper_def islower_def isword_def lower_char_def
  whitespace_def digits_def ascii_uppercase_def ascii_lowercase_def

lemma contains_sublist: "contains x s \<longleftrightarrow> sublist x s"
proof (induction s)
  case Nil
  then show ?case by simp
next
  case (Cons c cs)
  have "startswith x (c # cs) \<longleftrightarrow> prefix x (c # cs)"
    unfolding startswith_def prefix_def
    by (metis append_eq_conv_conj)
  then show ?case
    using Cons by (simp add: sublist_Cons_right)
qed

lemma sublist_contains: "sublist x s \<longleftrightarrow> contains x s"
  by (simp add: contains_sublist)

lemma lower_append: "lower (a @ b) = lower a @ lower b"
  by (simp add: lower_def)

section \<open>Titles of header lines\<close>

lemma isdigit_not_isspace: "isdigit c \<Longrightarrow> \<not> isspace c"
  by (auto simp: char_class_defs)

lemma dot_class: "\<not> isdigit CHR ''.''" "\<not> isspace CHR ''.''"
  by (simp_all add: char_class_defs)

lemma rstrip_append_nonspace: "\<not> isspace x \<Longrightarrow> rstrip (a @ x # b) = a @ x # rstrip b"
  by (simp add: rstrip_def dropWhile_append)

lemma rstrip_all_space: "\<forall>c \<in> set s. isspace c \<Longrightarrow> rstrip s = []"
  by (simp add: rstrip_def)

lemma lstrip_rstrip: "lstrip (rstrip s) = strip s"
proof (cases "\<forall>c \<in> set s. isspace c")
  case True
  then have "lstrip s = []" "rstrip s = []"
    by (simp_all add: lstrip_def rstrip_def)
  moreover have "lstrip [] = []" "rstrip [] = []"
    by (simp_all add: lstrip_def rstrip_def)
  ultimately show ?thesis by (simp add: strip_def)
next
  case False
  then have "\<exists>c \<in> set s. \<not> isspace c" by simp
  from split_list_first_prop [OF this]
  obtain a x b where s: "s = a @ x # b" and a: "\<forall>c \<in> set a. isspace c" and x: "\<not> isspace x"
    by auto
  have "lstrip (rstrip s) = x # rstrip b"
    using a x by (simp add: s rstrip_append_nonspace lstrip_def)
  moreover have "strip s = rstrip (x # b)"
    using a x by (simp add: s strip_def lstrip_def)
  moreover have "rstrip (x # b) = x # rstrip b"
    using rstrip_append_nonspace [OF x, of "[]" b] by simp
  ultimately show ?thesis by simp
qed

lemma strip_nonspace_head:
  "s \<noteq> [] \<Longrightarrow> \<not> isspace (hd s) \<Longrightarrow> \<not> isspace (last s) \<Longrightarrow> strip (s @ t) = s @ rstrip t"
proof -
  assume s: "s \<noteq> []" and h: "\<not> isspace (hd s)" and l: "\<not> isspace (last s)"
  from s h have "lstrip (s @ t) = s @ t"
    by (cases s) (simp_all add: lstrip_def)
  moreover have "rstrip (s @ t) = s @ rstrip t"
  proof -
    from s obtain b where b: "s = b @ [last s]"
      by (metis append_butlast_last_id)
    have "rstrip (b @ last s # t) = b @ last s # rstrip t"
      by (rule rstrip_append_nonspace [OF l])
    then have "rstrip ((b @ [last s]) @ t) = (b @ [last s]) @ rstrip t"
      by simp
    then show ?thesis using b by simp
  qed
  ultimately show ?thesis by (simp add: strip_def)
qed

lemma hd_rstrip: "rstrip t \<noteq> [] \<Longrightarrow> hd (rstrip t) = hd t"
proof (cases "\<forall>c \<in> set t. isspace c")
  case True
  assume "rstrip t \<noteq> []"
  with True show ?thesis by (simp add: rstrip_all_space)
next
  case False
  then have "\<exists>c \<in> set t. \<not> isspace c" by simp
  from split_list_first_prop [OF this]
  obtain a x b where t: "t = a @ x # b" and x: "\<not> isspace x"
    by auto
  have "rstrip t = a @ x # rstrip b"
    unfolding t by (rule rstrip_append_nonspace [OF x])
  then show ?thesis
    by (cases a) (simp_all add: t)
qed

lemma section_number_stripped:
  assumes "n \<noteq> []" "\<forall>c \<in> set n. isdigit c"
  shows "section_title_of (''## '' @ n @ ''.'' @ t) = strip t"
proof -
  have hd: "\<not> isspace (hd (n @ ''.''))" and lst: "\<not> isspace (last (n @ ''.''))"
    using assms by (cases n; simp add: isdigit_not_isspace dot_class)+
  have "strip (n @ ''.'' @ t) = (n @ ''.'') @ rstrip t"
    using strip_nonspace_head [OF _ hd lst, of t] by simp
  then have st: "strip (drop 3 (''## '' @ n @ ''.'' @ t)) = n @ ''.'' @ rstrip t"
    by simp
  have tw: "takeWhile isdigit (n @ ''.'' @ rstrip t) = n"
    using assms by (simp add: takeWhile_append2 dot_class)
  have dw: "dropWhile isdigit (n @ ''.'' @ rstrip t) = ''.'' @ rstrip t"
    using assms by (simp add: dropWhile_append2 dot_class)
  show ?thesis
    unfolding section_title_of_def st strip_section_number_def tw dw Let_def
    using assms(1) lstrip_rstrip [of t] by (simp add: startswith_def lstrip_def)
qed

lemma subsection_number_stripped:
  assumes "n \<noteq> []" "\<forall>c \<in> set n. isdigit c" "m \<noteq> []" "\<forall>c \<in> set m. isdigit c"
    and t: "t = [] \<or> \<not> isdigit (hd t)"
  shows "subsection_title_of (''### '' @ n @ ''.'' @ m @ t) = strip t"
proof -
  let ?p = "n @ ''.'' @ m"
  have hd: "\<not> isspace (hd ?p)" and lst: "\<not> isspace (last ?p)"
    using assms by (cases n; simp add: isdigit_not_isspace dot_class)+
  have "strip (?p @ t) = ?p @ rstrip t"
    using strip_nonspace_head [OF _ hd lst, of t] assms(1) by simp
  then have st: "strip (drop 4 (''### '' @ n @ ''.'' @ m @ t)) = n @ ''.'' @ m @ rstrip t"
    by simp
  have rt: "rstrip t = [] \<or> \<not> isdigit (hd (rstrip t))"
    using t hd_rstrip [of t] by (cases "rstrip t = []") (auto simp: rstrip_def)
  have tw: "takeWhile isdigit (n @ ''.'' @ m @ rstrip t) = n"
    using assms by (simp add: takeWhile_append2 dot_class)
  have dw: "dropWhile isdigit (n @ ''.'' @ m @ rstrip t) = ''.'' @ m @ rstrip t"
    using assms by (simp add: dropWhile_append2 dot_class)
  have tw2: "takeWhile isdigit (m @ rstrip t) \<noteq> []"
    using assms(3,4) by (cases m) simp_all
  have dw2: "dropWhile isdigit (m @ rstrip t) = rstrip t"
    using assms(4) rt by (cases "rstrip t") (simp_all add: dropWhile_append2)
  show ?thesis
    unfolding subsection_title_of_def st strip_subsection_number_def tw dw Let_def
    using assms(1) tw2 dw2 lstrip_rstrip [of t] by (simp add: startswith_def lstrip_def)
qed

lemma strip_section_number_unnumbered:
  "s = [] \<or> \<not> isdigit (hd s) \<Longrightarrow> strip_section_number s = s"
proof -
  assume "s = [] \<or> \<not> isdigit (hd s)"
  then have "takeWhile isdigit s = []"
    by (cases s) auto
  then show ?thesis
    by (simp only: strip_section_number_def Let_def simp_thms if_False)
qed

lemma strip_subsection_number_unnumbered:
  "s = [] \<or> \<not> isdigit (hd s) \<Longrightarrow> strip_subsection_number s = s"
proof -
  assume "s = [] \<or> \<not> isdigit (hd s)"
  then have "takeWhile isdigit s = []"
    by (cases s) auto
  then show ?thesis
    by (simp only: strip_subsection_number_def Let_def simp_thms if_False)
qed

text \<open>
  C8. The title of a header line is the text after the header marker, stripped of white
  space at both ends, without its leading number. For a section header whose text starts with
  digits and a dot ("N."), the title is exactly the rest of the line, stripped, whatever
  that rest is (a second number in it stays); for a subsection header whose text starts with
  digits, a dot and digits ("N.M") and goes on with something that is not a digit, the
  title is exactly the rest of the line, stripped. A header text that does not start with
  a digit is kept as it is. So "## 3. Bash Standards" gives "Bash Standards" and
  "### 3.1 File Naming" gives "File Naming", also through the two splitters.
\<close>

theorem heading_number_stripped:
  "(\<forall>n t. n \<noteq> [] \<and> (\<forall>c \<in> set n. isdigit c) \<longrightarrow>
      section_title_of (''## '' @ n @ ''.'' @ t) = strip t) \<and>
   (\<forall>n m t. n \<noteq> [] \<and> (\<forall>c \<in> set n. isdigit c) \<and> m \<noteq> [] \<and> (\<forall>c \<in> set m. isdigit c) \<and>
      (t = [] \<or> \<not> isdigit (hd t)) \<longrightarrow>
      subsection_title_of (''### '' @ n @ ''.'' @ m @ t) = strip t) \<and>
   (\<forall>line. strip (drop 3 line) = [] \<or> \<not> isdigit (hd (strip (drop 3 line))) \<longrightarrow>
      section_title_of line = strip (drop 3 line)) \<and>
   (\<forall>line. strip (drop 4 line) = [] \<or> \<not> isdigit (hd (strip (drop 4 line))) \<longrightarrow>
      subsection_title_of line = strip (drop 4 line)) \<and>
   section_title_of ''## 3. Bash Standards'' = ''Bash Standards'' \<and>
   subsection_title_of ''### 3.1 File Naming'' = ''File Naming'' \<and>
   split_into_sections
     (''## 3. Bash Standards'' @ [NL] @ ''### 3.1 File Naming'' @ [NL] @ ''Use lower case.'') =
     [(''Bash Standards'', ''### 3.1 File Naming'' @ [NL] @ ''Use lower case.'')] \<and>
   split_into_subsections (''### 3.1 File Naming'' @ [NL] @ ''Use lower case.'') =
     [(''File Naming'', ''Use lower case.'')]"
proof -
  have "section_title_of ''## 3. Bash Standards'' = ''Bash Standards''"
    by code_simp
  moreover have "subsection_title_of ''### 3.1 File Naming'' = ''File Naming''"
    by code_simp
  moreover have "split_into_sections
     (''## 3. Bash Standards'' @ [NL] @ ''### 3.1 File Naming'' @ [NL] @ ''Use lower case.'') =
     [(''Bash Standards'', ''### 3.1 File Naming'' @ [NL] @ ''Use lower case.'')]"
    by code_simp
  moreover have "split_into_subsections (''### 3.1 File Naming'' @ [NL] @ ''Use lower case.'') =
     [(''File Naming'', ''Use lower case.'')]"
    by code_simp
  moreover have "\<forall>line. strip (drop 3 line) = [] \<or> \<not> isdigit (hd (strip (drop 3 line))) \<longrightarrow>
      section_title_of line = strip (drop 3 line)"
    unfolding section_title_of_def using strip_section_number_unnumbered by blast
  moreover have "\<forall>line. strip (drop 4 line) = [] \<or> \<not> isdigit (hd (strip (drop 4 line))) \<longrightarrow>
      subsection_title_of line = strip (drop 4 line)"
    unfolding subsection_title_of_def using strip_subsection_number_unnumbered by blast
  moreover have "\<forall>n t. n \<noteq> [] \<and> (\<forall>c \<in> set n. isdigit c) \<longrightarrow>
      section_title_of (''## '' @ n @ ''.'' @ t) = strip t"
    using section_number_stripped by blast
  moreover have "\<forall>n m t. n \<noteq> [] \<and> (\<forall>c \<in> set n. isdigit c) \<and> m \<noteq> [] \<and>
      (\<forall>c \<in> set m. isdigit c) \<and> (t = [] \<or> \<not> isdigit (hd t)) \<longrightarrow>
      subsection_title_of (''### '' @ n @ ''.'' @ m @ t) = strip t"
    using subsection_number_stripped by blast
  ultimately show ?thesis
    by (intro conjI)
qed

theorem heading_number_stripped_witness:
  "section_title_of (''## '' @ ''12'' @ ''.'' @ '' 4. Shell scripts  '') = ''4. Shell scripts'' \<and>
   subsection_title_of (''### '' @ ''12'' @ ''.'' @ ''10'' @ '' Quoting '') = ''Quoting'' \<and>
   section_title_of ''## Overview '' = ''Overview'' \<and>
   subsection_title_of ''### Naming 2.1'' = ''Naming 2.1''"
proof -
  have d: "''12'' \<noteq> [] \<and> (\<forall>c \<in> set ''12''. isdigit c)"
    by code_simp
  have d2: "''12'' \<noteq> [] \<and> (\<forall>c \<in> set ''12''. isdigit c) \<and> ''10'' \<noteq> [] \<and>
      (\<forall>c \<in> set ''10''. isdigit c) \<and> ('' Quoting '' = [] \<or> \<not> isdigit (hd '' Quoting ''))"
    by code_simp
  have u: "strip (drop 3 ''## Overview '') = [] \<or> \<not> isdigit (hd (strip (drop 3 ''## Overview '')))"
    by code_simp
  have v: "strip (drop 4 ''### Naming 2.1'') = [] \<or>
      \<not> isdigit (hd (strip (drop 4 ''### Naming 2.1'')))"
    by code_simp
  note H = heading_number_stripped
  have "section_title_of (''## '' @ ''12'' @ ''.'' @ '' 4. Shell scripts  '') = strip '' 4. Shell scripts  ''"
    using H [THEN conjunct1, THEN spec, THEN spec, THEN mp, OF d] .
  moreover have "subsection_title_of (''### '' @ ''12'' @ ''.'' @ ''10'' @ '' Quoting '') = strip '' Quoting ''"
    using H [THEN conjunct2, THEN conjunct1, THEN spec, THEN spec, THEN spec, THEN mp, OF d2] .
  moreover have "section_title_of ''## Overview '' = strip (drop 3 ''## Overview '')"
    using H [THEN conjunct2, THEN conjunct2, THEN conjunct1, THEN spec, THEN mp, OF u] .
  moreover have "subsection_title_of ''### Naming 2.1'' = strip (drop 4 ''### Naming 2.1'')"
    using H [THEN conjunct2, THEN conjunct2, THEN conjunct2, THEN conjunct1, THEN spec, THEN mp, OF v] .
  moreover have "strip '' 4. Shell scripts  '' = ''4. Shell scripts''" "strip '' Quoting '' = ''Quoting''"
    "strip (drop 3 ''## Overview '') = ''Overview''" "strip (drop 4 ''### Naming 2.1'') = ''Naming 2.1''"
    by code_simp+
  ultimately show ?thesis
    by (simp only: simp_thms)
qed

section \<open>Priority and scope of a section\<close>

lemma get_priority_loop_first:
  "i < length T \<Longrightarrow> sublist (lower (fst (T ! i))) (lower s) \<Longrightarrow>
   \<forall>j<i. \<not> sublist (lower (fst (T ! j))) (lower s) \<Longrightarrow>
   get_priority_loop T s = snd (T ! i)"
proof (induction T arbitrary: i)
  case Nil
  then show ?case by simp
next
  case (Cons kv T)
  obtain k v where kv: "kv = (k, v)" by (cases kv)
  show ?case
  proof (cases i)
    case 0
    with Cons.prems kv show ?thesis by (simp add: contains_sublist)
  next
    case (Suc n)
    from Cons.prems Suc have "\<not> sublist (lower k) (lower s)"
      using kv by auto
    moreover have "get_priority_loop T s = snd (T ! n)"
      using Cons.prems Suc by (intro Cons.IH) auto
    ultimately show ?thesis using kv Suc by (simp add: contains_sublist)
  qed
qed

lemma get_priority_loop_none:
  "\<forall>kv \<in> set T. \<not> sublist (lower (fst kv)) (lower s) \<Longrightarrow> get_priority_loop T s = 50"
  by (induction T) (auto simp: contains_sublist)

lemma get_scope_loop_first:
  "i < length T \<Longrightarrow> sublist (lower (fst (T ! i))) (lower s) \<Longrightarrow>
   \<forall>j<i. \<not> sublist (lower (fst (T ! j))) (lower s) \<Longrightarrow>
   get_scope_loop T s = snd (T ! i)"
proof (induction T arbitrary: i)
  case Nil
  then show ?case by simp
next
  case (Cons kv T)
  obtain k v where kv: "kv = (k, v)" by (cases kv)
  show ?case
  proof (cases i)
    case 0
    with Cons.prems kv show ?thesis by (simp add: contains_sublist)
  next
    case (Suc n)
    from Cons.prems Suc have "\<not> sublist (lower k) (lower s)"
      using kv by auto
    moreover have "get_scope_loop T s = snd (T ! n)"
      using Cons.prems Suc by (intro Cons.IH) auto
    ultimately show ?thesis using kv Suc by (simp add: contains_sublist)
  qed
qed

lemma get_scope_loop_none:
  "\<forall>kv \<in> set T. \<not> sublist (lower (fst kv)) (lower s) \<Longrightarrow> get_scope_loop T s = [''all'']"
  by (induction T) (auto simp: contains_sublist)

lemma get_priority_Security: "get_priority (a @ ''Security'' @ b) = 100"
proof -
  have "lower (a @ ''Security'' @ b) = lower a @ ''security'' @ lower b"
    by (simp add: lower_def char_class_defs)
  then have "sublist ''security'' (lower (a @ ''Security'' @ b))"
    by (simp only: sublist_appendI)
  moreover have "lower ''Security'' = ''security''"
    by (simp add: lower_def char_class_defs)
  ultimately show ?thesis
    by (simp add: get_priority_def SECTION_PRIORITIES_def contains_sublist)
qed

lemma get_scope_Bash: "get_scope ''Bash Standards'' = [''*.sh'', ''*.bash'']"
  by (simp add: get_scope_def SECTION_SCOPES_def lower_def char_class_defs startswith_def)

text \<open>
  C7. The priority of a section is the priority of the first key of the priority table, in
  table order, whose lower-case form occurs in the lower-cased title, and 50 when no key
  occurs; its scope is the glob list of the first such key of the scope table, and
  \<open>["all"]\<close> when no key occurs. The title "Bash Standards" has the scope
  \<open>["*.sh", "*.bash"]\<close>, and every title in which "Security" occurs has priority 100.
\<close>

theorem classification_first_match:
  "(\<forall>i < length SECTION_PRIORITIES.
      sublist (lower (fst (SECTION_PRIORITIES ! i))) (lower ttl) \<and>
      (\<forall>j < i. \<not> sublist (lower (fst (SECTION_PRIORITIES ! j))) (lower ttl))
      \<longrightarrow> get_priority ttl = snd (SECTION_PRIORITIES ! i)) \<and>
   ((\<forall>kv \<in> set SECTION_PRIORITIES. \<not> sublist (lower (fst kv)) (lower ttl))
      \<longrightarrow> get_priority ttl = 50) \<and>
   (\<forall>i < length SECTION_SCOPES.
      sublist (lower (fst (SECTION_SCOPES ! i))) (lower ttl) \<and>
      (\<forall>j < i. \<not> sublist (lower (fst (SECTION_SCOPES ! j))) (lower ttl))
      \<longrightarrow> get_scope ttl = snd (SECTION_SCOPES ! i)) \<and>
   ((\<forall>kv \<in> set SECTION_SCOPES. \<not> sublist (lower (fst kv)) (lower ttl))
      \<longrightarrow> get_scope ttl = [''all'']) \<and>
   get_scope ''Bash Standards'' = [''*.sh'', ''*.bash''] \<and>
   (\<forall>a b. get_priority (a @ ''Security'' @ b) = 100)"
  unfolding get_priority_def get_scope_def
  using get_priority_loop_first [of _ SECTION_PRIORITIES ttl]
    get_priority_loop_none [of SECTION_PRIORITIES ttl]
    get_scope_loop_first [of _ SECTION_SCOPES ttl]
    get_scope_loop_none [of SECTION_SCOPES ttl]
    get_scope_Bash get_priority_Security
  unfolding get_priority_def get_scope_def
  by blast

theorem classification_first_match_witness:
  "get_priority ''4. Python Standards'' = 70 \<and> get_scope ''4. Python Standards'' = [''*.py''] \<and>
   get_priority ''Changelog'' = 50 \<and> get_scope ''Changelog'' = [''all'']"
proof -
  let ?t = "''4. Python Standards''"
  have p: "sublist (lower (fst (SECTION_PRIORITIES ! 3))) (lower ?t) \<and>
      (\<forall>j < 3. \<not> sublist (lower (fst (SECTION_PRIORITIES ! j))) (lower ?t))"
    unfolding sublist_contains by code_simp
  have s: "sublist (lower (fst (SECTION_SCOPES ! 1))) (lower ?t) \<and>
      (\<forall>j < 1. \<not> sublist (lower (fst (SECTION_SCOPES ! j))) (lower ?t))"
    unfolding sublist_contains by code_simp
  let ?u = "''Changelog''"
  have np: "\<forall>kv \<in> set SECTION_PRIORITIES. \<not> sublist (lower (fst kv)) (lower ?u)"
    unfolding sublist_contains by code_simp
  have ns: "\<forall>kv \<in> set SECTION_SCOPES. \<not> sublist (lower (fst kv)) (lower ?u)"
    unfolding sublist_contains by code_simp
  have l3: "3 < length SECTION_PRIORITIES" and l1: "1 < length SECTION_SCOPES"
    by (simp_all add: SECTION_PRIORITIES_def SECTION_SCOPES_def)
  note T = classification_first_match [of ?t]
  note U = classification_first_match [of ?u]
  have "get_priority ?t = snd (SECTION_PRIORITIES ! 3)"
    using T [THEN conjunct1, rule_format, OF l3 p] .
  moreover have "get_scope ?t = snd (SECTION_SCOPES ! 1)"
    using T [THEN conjunct2, THEN conjunct2, THEN conjunct1, rule_format, OF l1 s] .
  moreover have "get_priority ?u = 50"
    using U [THEN conjunct2, THEN conjunct1, THEN mp, OF np] .
  moreover have "get_scope ?u = [''all'']"
    using U [THEN conjunct2, THEN conjunct2, THEN conjunct2, THEN conjunct1, THEN mp, OF ns] .
  moreover have "snd (SECTION_PRIORITIES ! 3) = 70" "snd (SECTION_SCOPES ! 1) = [''*.py'']"
    by (simp_all add: SECTION_PRIORITIES_def SECTION_SCOPES_def)
  ultimately show ?thesis
    by simp
qed

section \<open>Rules and their titles\<close>

lemma split_sentences_not_Nil: "split_sentences s \<noteq> []"
  by (induction s rule: split_sentences.induct) (auto split: list.splits)

lemma extract_title_first_sentence:
  "extract_title text =
     (if length (first_sentence text) > 60 then take 57 (first_sentence text) @ ''...''
      else first_sentence text)"
  by (simp add: extract_title_def first_sentence_def Let_def split_sentences_not_Nil)

lemma create_rule_None_iff:
  "create_rule s sub c p sc tg = None \<longleftrightarrow> strip (prose c) = []"
  by (simp add: create_rule_def prose_def split: prod.splits)

lemma create_rule_Some:
  "create_rule s sub c p sc tg = Some r \<Longrightarrow>
   r_section r = s \<and> r_subsection r = sub \<and> r_content r = strip (prose c) \<and>
   r_title r = (if truthy sub then the sub else extract_title (prose c)) \<and>
   r_priority r = p \<and> r_scope r = sc \<and> r_tags r = tg"
  by (auto simp: create_rule_def prose_def split: prod.splits if_splits)

text \<open>
  C5 (as amended). A rule built without a subsection has the title \<open>_extract_title\<close> derives
  from its text, of at most 60 characters: when the first sentence of the text (stripped,
  without a leading bullet) is longer than 60 characters, the title is its first 57
  characters followed by "...", of length exactly 60; otherwise the title is that sentence.
  A rule built for a subsection has the subsection's title as its title, whatever its
  length.
\<close>

theorem derived_title_truncated:
  "(create_rule s None c p sc tg = Some r \<longrightarrow>
      r_title r = extract_title (prose c) \<and> length (r_title r) \<le> 60) \<and>
   (length (first_sentence text) > 60 \<longrightarrow>
      extract_title text = take 57 (first_sentence text) @ ''...'' \<and>
      length (extract_title text) = 60 \<and> endswith ''...'' (extract_title text)) \<and>
   (length (first_sentence text) \<le> 60 \<longrightarrow> extract_title text = first_sentence text) \<and>
   (create_rule s (Some sub) c p sc tg = Some r \<and> sub \<noteq> [] \<longrightarrow> r_title r = sub)"
proof -
  have len: "length (extract_title t) \<le> 60" for t
    by (simp add: extract_title_first_sentence)
  have a: "create_rule s None c p sc tg = Some r \<longrightarrow>
      r_title r = extract_title (prose c) \<and> length (r_title r) \<le> 60"
    using create_rule_Some [of s None c p sc tg r] len by auto
  have b: "length (first_sentence text) > 60 \<longrightarrow>
      extract_title text = take 57 (first_sentence text) @ ''...'' \<and>
      length (extract_title text) = 60 \<and> endswith ''...'' (extract_title text)"
    by (simp add: extract_title_first_sentence endswith_def startswith_def)
  have c: "length (first_sentence text) \<le> 60 \<longrightarrow> extract_title text = first_sentence text"
    by (simp add: extract_title_first_sentence)
  have d: "create_rule s (Some sub) c p sc tg = Some r \<and> sub \<noteq> [] \<longrightarrow> r_title r = sub"
    using create_rule_Some [of s "Some sub" c p sc tg r] by auto
  from a b c d show ?thesis by (intro conjI)
qed

theorem derived_title_truncated_witness:
  "length (r_title (the (create_rule ''Security'' None (replicate 70 CHR ''a'' @ ''. b'') 100
      [''all''] [''security'']))) \<le> 60 \<and>
   length (first_sentence (replicate 70 CHR ''a'' @ ''. b'')) > 60 \<and>
   extract_title (replicate 70 CHR ''a'' @ ''. b'') = replicate 57 CHR ''a'' @ ''...'' \<and>
   length (extract_title (replicate 70 CHR ''a'' @ ''. b'')) = 60 \<and>
   endswith ''...'' (extract_title (replicate 70 CHR ''a'' @ ''. b'')) \<and>
   extract_title ''- Never commit secrets. Ever.'' = ''Never commit secrets'' \<and>
   r_title (the (create_rule ''Bash'' (Some ''File Naming'') ''Use lower case.'' 70 [] [])) =
     ''File Naming''"
proof -
  let ?long = "replicate 70 CHR ''a'' @ ''. b''"
  let ?c1 = "create_rule ''Security'' None ?long 100 [''all''] [''security'']"
  let ?c2 = "create_rule ''Bash'' (Some ''File Naming'') ''Use lower case.'' 70 [] []"
  have "strip (prose ?long) \<noteq> []"
    by code_simp
  then have "?c1 \<noteq> None"
    by (simp only: create_rule_None_iff not_False_eq_True)
  then have e1: "?c1 = Some (the ?c1)"
    by simp
  have "strip (prose ''Use lower case.'') \<noteq> []"
    by code_simp
  then have "?c2 \<noteq> None"
    by (simp only: create_rule_None_iff not_False_eq_True)
  then have e2: "?c2 = Some (the ?c2) \<and> ''File Naming'' \<noteq> []"
    by simp
  have l: "length (first_sentence ?long) > 60"
    by code_simp
  have sh: "length (first_sentence ''- Never commit secrets. Ever.'') \<le> 60"
    by code_simp
  have f1: "length (r_title (the ?c1)) \<le> 60"
    using derived_title_truncated [THEN conjunct1, THEN mp, OF e1] by (rule conjunct2)
  have t: "extract_title ?long = take 57 (first_sentence ?long) @ ''...'' \<and>
      length (extract_title ?long) = 60 \<and> endswith ''...'' (extract_title ?long)"
    using derived_title_truncated [THEN conjunct2, THEN conjunct1, THEN mp, OF l] .
  have "take 57 (first_sentence ?long) = replicate 57 CHR ''a''"
    by code_simp
  with t have f3: "extract_title ?long = replicate 57 CHR ''a'' @ ''...''"
    by simp
  from t have f4: "length (extract_title ?long) = 60"
    and f5: "endswith ''...'' (extract_title ?long)"
    by blast+
  have "extract_title ''- Never commit secrets. Ever.'' =
      first_sentence ''- Never commit secrets. Ever.''"
    using derived_title_truncated [THEN conjunct2, THEN conjunct2, THEN conjunct1, THEN mp, OF sh] .
  moreover have "first_sentence ''- Never commit secrets. Ever.'' = ''Never commit secrets''"
    by code_simp
  ultimately have f6: "extract_title ''- Never commit secrets. Ever.'' = ''Never commit secrets''"
    by simp
  have f7: "r_title (the ?c2) = ''File Naming''"
    using derived_title_truncated [THEN conjunct2, THEN conjunct2, THEN conjunct2, THEN mp, OF e2] .
  show ?thesis
    by (intro conjI f1 l f3 f4 f5 f6 f7)
qed

text \<open>
  The claim as it was stated fails: a subsection header of 61 characters gives a rule whose
  title has 61 characters.
\<close>

theorem title_length_counterexample:
  "map (length \<circ> r_title)
     (parse (''## S'' @ [NL] @ ''### '' @ replicate 61 CHR ''a'' @ [NL] @ ''x'')) = [61]"
  by code_simp

section \<open>Rules of a section\<close>

lemma parse_section_no_subsections:
  "split_into_subsections c = [] \<Longrightarrow>
   parse_section t c = (case create_rule t None c (get_priority t) (get_scope t) (get_tags t) of
                          None \<Rightarrow> [] | Some r \<Rightarrow> [r])"
  by (simp add: parse_section_def)

lemma parse_section_subsections:
  "split_into_subsections c \<noteq> [] \<Longrightarrow>
   parse_section t c =
     List.map_filter
       (\<lambda>(st, sc). create_rule t (Some st) sc (get_priority t) (get_scope t) (get_tags t))
       (split_into_subsections c)"
  by (simp add: parse_section_def)

lemma map_filter_create_rule_subsections:
  "map r_subsection (List.map_filter (\<lambda>(st, sc). create_rule t (Some st) sc p sp tg) subs) =
   map (Some \<circ> fst) (filter (\<lambda>(st, sc). strip (prose sc) \<noteq> []) subs)"
proof (induction subs)
  case Nil
  then show ?case by (simp add: List.map_filter_simps)
next
  case (Cons x subs)
  obtain st sc where x: "x = (st, sc)" by (cases x)
  show ?case
  proof (cases "create_rule t (Some st) sc p sp tg")
    case None
    then show ?thesis
      using Cons x create_rule_None_iff [of t "Some st" sc p sp tg]
      by (simp add: List.map_filter_simps)
  next
    case (Some r)
    then have "strip (prose sc) \<noteq> []"
      using create_rule_None_iff [of t "Some st" sc p sp tg] by simp
    moreover have "r_subsection r = Some st"
      using create_rule_Some [OF Some] by simp
    ultimately show ?thesis
      using Cons x Some by (simp add: List.map_filter_simps)
  qed
qed

text \<open>
  C1 (as amended). The rules of a document are the rules of its sections, in the order of
  the section dictionary. A section without subsections yields one rule when its text
  without the code blocks is not blank, and none otherwise. A section with subsections
  yields one rule for every subsection whose text without the code blocks is not blank, in
  the order of the subsection dictionary: at most as many rules as subsections, and exactly
  as many when no subsection has a blank text.
\<close>

theorem rules_per_section:
  "parse doc = concat (map (\<lambda>(t, c). parse_section t c) (split_into_sections doc)) \<and>
   (split_into_subsections c = [] \<longrightarrow>
      length (parse_section t c) = (if strip (prose c) = [] then 0 else 1) \<and>
      map r_subsection (parse_section t c) = (if strip (prose c) = [] then [] else [None])) \<and>
   (split_into_subsections c \<noteq> [] \<longrightarrow>
      map r_subsection (parse_section t c) =
        map (Some \<circ> fst) (filter (\<lambda>(st, sc). strip (prose sc) \<noteq> []) (split_into_subsections c)) \<and>
      length (parse_section t c) \<le> length (split_into_subsections c)) \<and>
   (split_into_subsections c \<noteq> [] \<and>
    (\<forall>sub \<in> set (split_into_subsections c). strip (prose (snd sub)) \<noteq> []) \<longrightarrow>
      length (parse_section t c) = length (split_into_subsections c))"
proof -
  let ?subs = "split_into_subsections c"
  let ?keep = "filter (\<lambda>(st, sc). strip (prose sc) \<noteq> []) ?subs"
  have a: "parse doc = concat (map (\<lambda>(t, c). parse_section t c) (split_into_sections doc))"
    by (simp add: parse_def)
  have b: "?subs = [] \<longrightarrow>
      length (parse_section t c) = (if strip (prose c) = [] then 0 else 1) \<and>
      map r_subsection (parse_section t c) = (if strip (prose c) = [] then [] else [None])"
  proof
    assume e: "?subs = []"
    show "length (parse_section t c) = (if strip (prose c) = [] then 0 else 1) \<and>
      map r_subsection (parse_section t c) = (if strip (prose c) = [] then [] else [None])"
    proof (cases "create_rule t None c (get_priority t) (get_scope t) (get_tags t)")
      case None
      then show ?thesis
        using create_rule_None_iff [of t None c "get_priority t" "get_scope t" "get_tags t"]
        by (simp add: parse_section_no_subsections [OF e])
    next
      case (Some r)
      then show ?thesis
        using create_rule_None_iff [of t None c "get_priority t" "get_scope t" "get_tags t"]
          create_rule_Some [OF Some]
        by (simp add: parse_section_no_subsections [OF e])
    qed
  qed
  have m: "map r_subsection (parse_section t c) = map (Some \<circ> fst) ?keep" if ne: "?subs \<noteq> []"
    unfolding parse_section_subsections [OF ne]
    by (rule map_filter_create_rule_subsections)
  have l: "?subs \<noteq> [] \<Longrightarrow> length (parse_section t c) = length ?keep"
    using m by (metis length_map)
  have c: "?subs \<noteq> [] \<longrightarrow>
      map r_subsection (parse_section t c) = map (Some \<circ> fst) ?keep \<and>
      length (parse_section t c) \<le> length ?subs"
    using m l by simp
  have d: "?subs \<noteq> [] \<and> (\<forall>sub \<in> set ?subs. strip (prose (snd sub)) \<noteq> []) \<longrightarrow>
      length (parse_section t c) = length ?subs"
  proof
    assume h: "?subs \<noteq> [] \<and> (\<forall>sub \<in> set ?subs. strip (prose (snd sub)) \<noteq> [])"
    then have "?keep = ?subs"
      by (auto intro!: filter_True)
    with h l show "length (parse_section t c) = length ?subs" by simp
  qed
  from a b c d show ?thesis by (intro conjI)
qed

theorem rules_per_section_witness:
  "length (parse_section ''Security'' ''Never commit secrets.'') = 1 \<and>
   map r_subsection
     (parse_section ''Bash''
        (''### Naming'' @ [NL] @ ''Use lower case.'' @ [NL] @
         ''### Listing'' @ [NL] @ FENCE @ ''sh'' @ [NL] @ ''ls'' @ [NL] @ FENCE)) = [Some ''Naming''] \<and>
   length (parse_section ''Bash''
        (''### Naming'' @ [NL] @ ''Use lower case.'' @ [NL] @ ''### Quoting'' @ [NL] @ ''Quote.'')) = 2"
proof -
  let ?c1 = "''Never commit secrets.''"
  let ?c2 = "''### Naming'' @ [NL] @ ''Use lower case.'' @ [NL] @
         ''### Listing'' @ [NL] @ FENCE @ ''sh'' @ [NL] @ ''ls'' @ [NL] @ FENCE"
  let ?c3 = "''### Naming'' @ [NL] @ ''Use lower case.'' @ [NL] @ ''### Quoting'' @ [NL] @ ''Quote.''"
  have h1: "split_into_subsections ?c1 = []"
    by code_simp
  have h2: "split_into_subsections ?c2 \<noteq> []"
    by code_simp
  have h3: "split_into_subsections ?c3 \<noteq> [] \<and>
      (\<forall>sub \<in> set (split_into_subsections ?c3). strip (prose (snd sub)) \<noteq> [])"
    by code_simp
  have "length (parse_section ''Security'' ?c1) = (if strip (prose ?c1) = [] then 0 else 1)"
    using rules_per_section [THEN conjunct2, THEN conjunct1, THEN mp, OF h1] by (rule conjunct1)
  moreover have "strip (prose ?c1) \<noteq> []"
    by code_simp
  ultimately have f1: "length (parse_section ''Security'' ?c1) = 1"
    by simp
  have "map r_subsection (parse_section ''Bash'' ?c2) =
      map (Some \<circ> fst) (filter (\<lambda>(st, sc). strip (prose sc) \<noteq> []) (split_into_subsections ?c2))"
    using rules_per_section [THEN conjunct2, THEN conjunct2, THEN conjunct1, THEN mp, OF h2]
    by (rule conjunct1)
  moreover have "map (Some \<circ> fst)
      (filter (\<lambda>(st, sc). strip (prose sc) \<noteq> []) (split_into_subsections ?c2)) = [Some ''Naming'']"
    by code_simp
  ultimately have f2: "map r_subsection (parse_section ''Bash'' ?c2) = [Some ''Naming'']"
    by simp
  have "length (parse_section ''Bash'' ?c3) = length (split_into_subsections ?c3)"
    using rules_per_section [THEN conjunct2, THEN conjunct2, THEN conjunct2, THEN mp, OF h3] .
  moreover have "length (split_into_subsections ?c3) = 2"
    by code_simp
  ultimately have f3: "length (parse_section ''Bash'' ?c3) = 2"
    by simp
  show ?thesis
    by (intro conjI f1 f2 f3)
qed

text \<open>
  The claim as it was stated fails: a section without text yields no rule, and a subsection
  that holds a code block only yields no rule.
\<close>

theorem rules_per_section_counterexample:
  "split_into_sections ''## Security'' = [(''Security'', [])] \<and>
   split_into_subsections [] = [] \<and>
   parse_section ''Security'' [] = [] \<and>
   parse ''## Security'' = [] \<and>
   split_into_subsections (''### Listing'' @ [NL] @ FENCE @ ''sh'' @ [NL] @ ''ls'' @ [NL] @ FENCE) =
     [(''Listing'', FENCE @ ''sh'' @ [NL] @ ''ls'' @ [NL] @ FENCE)] \<and>
   parse_section ''Bash'' (''### Listing'' @ [NL] @ FENCE @ ''sh'' @ [NL] @ ''ls'' @ [NL] @ FENCE) = []"
  by code_simp

section \<open>Correct and incorrect examples\<close>

lemma split_char_not_Nil: "split_char sep s \<noteq> []"
  by (induction s) (auto split: list.splits)

lemma split_char_no_sep: "sep \<notin> set x \<Longrightarrow> split_char sep x = [x]"
  by (induction x) auto

lemma split_char_append_no_sep:
  "sep \<notin> set x \<Longrightarrow>
   split_char sep (q @ x) = butlast (split_char sep q) @ [last (split_char sep q) @ x]"
proof (induction q)
  case Nil
  then show ?case by (simp add: split_char_no_sep)
next
  case (Cons c q)
  show ?case
  proof (cases "c = sep")
    case True
    then show ?thesis using Cons split_char_not_Nil [of sep q] by simp
  next
    case False
    obtain y ys where q: "split_char sep q = y # ys"
      using split_char_not_Nil [of sep q] by (cases "split_char sep q") auto
    show ?thesis
      using Cons False q by (cases ys) (auto split: list.splits)
  qed
qed

lemma join_last: "ys \<noteq> [] \<Longrightarrow> \<exists>u. join sep ys = u @ last ys"
proof (induction sep ys rule: join.induct)
  case (1 sep)
  then show ?case by simp
next
  case (2 sep x)
  then show ?case by simp
next
  case (3 sep x y ys)
  then obtain u where "join sep (y # ys) = u @ last (y # ys)" by auto
  then have "join sep (x # y # ys) = (x @ sep @ u) @ last (x # y # ys)" by simp
  then show ?case by blast
qed

lemma last_last3: "xs \<noteq> [] \<Longrightarrow> last3 xs \<noteq> [] \<and> last (last3 xs) = last xs"
  by (cases xs rule: rev_cases) (auto simp: last3_def)

lemma strip_marked_line:
  assumes ws: "\<forall>c \<in> set ws. isspace c" and x: "x \<noteq> []" "\<not> isspace (hd x)" "\<not> isspace (last x)"
  shows "\<exists>q. strip (pre @ x @ ws) = q @ x"
proof -
  have r: "rstrip (q @ x @ ws) = q @ x" for q
  proof -
    obtain b l where b: "x = b @ [l]"
      using x(1) by (cases x rule: rev_cases) auto
    then have l: "\<not> isspace l"
      using x(3) by simp
    have "rstrip ((q @ b) @ l # ws) = (q @ b) @ l # rstrip ws"
      by (rule rstrip_append_nonspace [OF l])
    moreover have "rstrip ws = []"
      using ws by (rule rstrip_all_space)
    ultimately show ?thesis
      unfolding b by simp
  qed
  have lx: "dropWhile isspace (x @ ws) = x @ ws"
    using x by (cases x) simp_all
  have "dropWhile isspace (pre @ x @ ws) =
      (if \<forall>c \<in> set pre. isspace c then dropWhile isspace (x @ ws)
       else dropWhile isspace pre @ x @ ws)"
    by (rule dropWhile_append)
  then have "lstrip (pre @ x @ ws) =
      (if \<forall>c \<in> set pre. isspace c then x @ ws else dropWhile isspace pre @ x @ ws)"
    by (simp only: lstrip_def lx)
  then have "\<exists>q. lstrip (pre @ x @ ws) = q @ x @ ws"
    by (metis append_Nil)
  then obtain q where "lstrip (pre @ x @ ws) = q @ x @ ws" ..
  then have "strip (pre @ x @ ws) = q @ x"
    by (simp add: strip_def r)
  then show ?thesis ..
qed

lemma last_text_marked_line:
  assumes ws: "\<forall>c \<in> set ws. isspace c" and x: "x \<noteq> []" "\<not> isspace (hd x)" "\<not> isspace (last x)"
    and nl: "NL \<notin> set x"
  shows "\<exists>u. last_text (pre @ x @ ws) = u @ lower x"
proof -
  obtain q where q: "strip (pre @ x @ ws) = q @ x"
    using strip_marked_line [OF ws x] by blast
  let ?ls = "split_char NL (q @ x)"
  have "?ls = butlast (split_char NL q) @ [last (split_char NL q) @ x]"
    by (rule split_char_append_no_sep [OF nl])
  then have l: "?ls \<noteq> []" "last ?ls = last (split_char NL q) @ x"
    by simp_all
  from last_last3 [OF l(1)] have l3: "last3 ?ls \<noteq> []" "last (last3 ?ls) = last ?ls"
    by simp_all
  obtain u where "join '' '' (last3 ?ls) = u @ last (last3 ?ls)"
    using join_last [OF l3(1)] by blast
  then have "join '' '' (last3 ?ls) = (u @ last (split_char NL q)) @ x"
    using l3(2) l(2) by simp
  then have "last_text (pre @ x @ ws) = lower (u @ last (split_char NL q)) @ lower x"
    unfolding last_text_def Let_def q by (simp only: lower_append)
  then show ?thesis ..
qed

lemma cross_wrong_incorrect:
  assumes ws: "\<forall>c \<in> set ws. isspace c"
  shows "\<not> is_correct_example (pre @ (CROSS_MARK @ '' WRONG:'') @ ws) code"
proof -
  let ?x = "CROSS_MARK @ '' WRONG:''"
  have x: "?x \<noteq> []" "\<not> isspace (hd ?x)" "\<not> isspace (last ?x)" "NL \<notin> set ?x"
    by code_simp+
  obtain u where u: "last_text (pre @ ?x @ ws) = u @ lower ?x"
    using last_text_marked_line [OF ws x] by blast
  have "lower ?x = (CROSS_MARK @ '' '') @ ''wrong'' @ '':''"
    by code_simp
  then have "last_text (pre @ ?x @ ws) = (u @ CROSS_MARK @ '' '') @ ''wrong'' @ '':''"
    using u by simp
  then have "sublist ''wrong'' (last_text (pre @ ?x @ ws))"
    by (simp only: sublist_appendI)
  then have "list_ex (\<lambda>indicator. contains indicator (last_text (pre @ ?x @ ws))) incorrect_indicators"
    by (simp add: incorrect_indicators_def contains_sublist)
  then show ?thesis
    by (simp add: is_correct_example_def)
qed

lemma match_fence_no_fence: "c \<noteq> CHR 0x60 \<Longrightarrow> match_fence (c # cs) = None"
  by (simp add: match_fence_def startswith_def FENCE_def)

lemma split_fences_head: "\<exists>t parts. split_fences s = Some t # parts"
  by (induction s rule: split_fences.induct) (auto split: option.splits list.splits)

lemma split_fences_prefix:
  "CHR 0x60 \<notin> set a \<Longrightarrow> split_fences s = Some t # parts \<Longrightarrow>
   split_fences (a @ s) = Some (a @ t) # parts"
proof (induction a)
  case Nil
  then show ?case by simp
next
  case (Cons c a)
  then have "c \<noteq> CHR 0x60" by auto
  then have "match_fence (c # a @ s) = None"
    by (rule match_fence_no_fence)
  then show ?case using Cons by simp
qed

lemma isword_not_NL: "\<not> isword NL"
  by code_simp

lemma match_fence_block:
  assumes "\<forall>c \<in> set lang. isword c" "find_first FENCE rest = Some (body, after)"
  shows "match_fence (FENCE @ lang @ [NL] @ rest) =
     Some (if lang = [] then None else Some lang, body, after)"
proof -
  have "takeWhile isword (lang @ NL # rest) = lang" "dropWhile isword (lang @ NL # rest) = NL # rest"
    using assms(1) by (simp_all add: isword_not_NL)
  then show ?thesis
    using assms(2) by (simp add: match_fence_def startswith_def FENCE_def)
qed

lemma extract_loop_examples:
  "snd (extract_loop i prev parts tps exs) = exs @ snd (extract_loop i prev parts tps [])"
proof (induction parts arbitrary: i prev tps exs)
  case Nil
  then show ?case by simp
next
  case (Cons part parts)
  show ?case
  proof (cases "i mod 3 = 2")
    case True
    let ?e = "\<lparr>ex_code = strip (text_of part),
      ex_language = (if truthy prev then the prev else ''text''),
      ex_is_correct = is_correct_example (if tps \<noteq> [] then last tps else []) (strip (text_of part)),
      ex_explanation = None\<rparr>"
    have "snd (extract_loop i prev (part # parts) tps exs) =
        snd (extract_loop (i + 1) part parts tps (exs @ [?e]))" for exs
      using True by (simp add: Let_def)
    then show ?thesis
      using Cons [of "i + 1" part tps "exs @ [?e]"] Cons [of "i + 1" part tps "[?e]"] by simp
  next
    case False
    then show ?thesis
      using Cons [of "i + 1" part "tps @ [text_of part]" exs] Cons [of "i + 1" part tps exs]
      by simp
  qed
qed

lemma extract_first_block:
  assumes b: "CHR 0x60 \<notin> set before" and l: "\<forall>c \<in> set lang. isword c"
    and f: "find_first FENCE rest = Some (body, after)"
  shows "\<exists>exs. snd (extract_content_and_examples (before @ FENCE @ lang @ [NL] @ rest)) =
     \<lparr>ex_code = strip body,
       ex_language = (if lang = [] then ''text'' else lang),
       ex_is_correct = is_correct_example before (strip body),
       ex_explanation = None\<rparr> # exs"
proof -
  let ?l = "if lang = [] then None else Some lang"
  have "split_fences (FENCE @ lang @ [NL] @ rest) = Some [] # ?l # Some body # split_fences after"
    using match_fence_block [OF l f] by (simp add: FENCE_def)
  from split_fences_prefix [OF b this]
  have sf: "split_fences (before @ FENCE @ lang @ [NL] @ rest) =
      Some before # ?l # Some body # split_fences after"
    by simp
  let ?e = "\<lparr>ex_code = strip body,
       ex_language = (if lang = [] then ''text'' else lang),
       ex_is_correct = is_correct_example before (strip body),
       ex_explanation = None\<rparr>"
  have "extract_loop 0 None (Some before # ?l # Some body # split_fences after) [] [] =
      extract_loop (Suc (Suc (Suc 0))) (Some body) (split_fences after) [before] [?e]"
    by (simp add: Let_def)
  then have "snd (extract_loop 0 None (split_fences (before @ FENCE @ lang @ [NL] @ rest)) [] []) =
      ?e # snd (extract_loop (Suc (Suc (Suc 0))) (Some body) (split_fences after) [before] [])"
    using extract_loop_examples [of "Suc (Suc (Suc 0))" "Some body" "split_fences after" "[before]" "[?e]"] sf
    by simp
  moreover have "snd (extract_content_and_examples c) =
      snd (extract_loop 0 None (split_fences c) [] [])" for c
    by (simp add: extract_content_and_examples_def split: prod.splits)
  ultimately have "snd (extract_content_and_examples (before @ FENCE @ lang @ [NL] @ rest)) =
      ?e # snd (extract_loop (Suc (Suc (Suc 0))) (Some body) (split_fences after) [before] [])"
    by (simp only:)
  then show ?thesis
    by (rule exI)
qed

lemma split_char_sep:
  "split_char sep (a @ sep # b) = split_char sep a @ split_char sep b"
proof (induction a)
  case Nil
  then show ?case by simp
next
  case (Cons c a)
  obtain y ys where y: "split_char sep a = y # ys"
    using split_char_not_Nil [of sep a] by (cases "split_char sep a") auto
  show ?case
    using Cons y by simp
qed

lemma split_char_join:
  "ls \<noteq> [] \<Longrightarrow> \<forall>l \<in> set ls. sep \<notin> set l \<Longrightarrow> split_char sep (join [sep] ls) = ls"
proof (induction "[sep]" ls rule: join.induct)
  case 1
  then show ?case by simp
next
  case (2 x)
  then show ?case by (simp add: split_char_no_sep)
next
  case (3 x y ys)
  then have "split_char sep (join [sep] (y # ys)) = y # ys"
    by simp
  moreover have "split_char sep x = [x]"
    using 3 by (simp add: split_char_no_sep)
  ultimately show ?case
    using split_char_sep [of sep x "join [sep] (y # ys)"] by simp
qed

lemma strip_exact:
  assumes w1: "\<forall>c \<in> set ws1. isspace c" and w2: "\<forall>c \<in> set ws2. isspace c"
    and s: "s = [] \<or> (\<not> isspace (hd s) \<and> \<not> isspace (last s))"
  shows "strip (ws1 @ s @ ws2) = s"
proof -
  have "dropWhile isspace (ws1 @ s @ ws2) = dropWhile isspace (s @ ws2)"
    using w1 by (intro dropWhile_append2) simp
  then have l: "strip (ws1 @ s @ ws2) = strip (s @ ws2)"
    by (simp add: strip_def lstrip_def)
  show ?thesis
  proof (cases "s = []")
    case True
    have "dropWhile isspace ws2 = []"
      using w2 by (simp only: dropWhile_eq_Nil_conv)
    then have "strip ws2 = rstrip []"
      by (simp only: strip_def lstrip_def)
    then have "strip ws2 = []"
      by (simp add: rstrip_def)
    then show ?thesis
      using l True by simp
  next
    case False
    then have "strip (s @ ws2) = s @ rstrip ws2"
      using s by (intro strip_nonspace_head) simp_all
    then show ?thesis
      using l rstrip_all_space [OF w2] by simp
  qed
qed

lemma last_text_lines:
  assumes w1: "\<forall>c \<in> set ws1. isspace c" and w2: "\<forall>c \<in> set ws2. isspace c"
    and ls: "ls \<noteq> []" "\<forall>l \<in> set ls. NL \<notin> set l"
    and s: "join [NL] ls = [] \<or>
      (\<not> isspace (hd (join [NL] ls)) \<and> \<not> isspace (last (join [NL] ls)))"
  shows "last_text (ws1 @ join [NL] ls @ ws2) = lower (join '' '' (drop (length ls - 3) ls))"
proof -
  have "strip (ws1 @ join [NL] ls @ ws2) = join [NL] ls"
    using w1 w2 s by (rule strip_exact)
  moreover have "split_char NL (join [NL] ls) = ls"
    using ls by (rule split_char_join)
  ultimately show ?thesis
    by (simp add: last_text_def last3_def)
qed

lemma last_text_three_lines:
  assumes w1: "\<forall>c \<in> set ws1. isspace c" and w2: "\<forall>c \<in> set ws2. isspace c"
    and nl: "NL \<notin> set l1" "NL \<notin> set l2" "NL \<notin> set l3"
    and pre: "pre \<noteq> []" "\<not> isspace (hd pre)" and l3: "l3 \<noteq> []" "\<not> isspace (last l3)"
  shows "last_text (ws1 @ (pre @ [NL] @ l1 @ [NL] @ l2 @ [NL] @ l3) @ ws2) =
     lower (l1 @ '' '' @ l2 @ '' '' @ l3)"
proof -
  let ?s = "pre @ [NL] @ l1 @ [NL] @ l2 @ [NL] @ l3"
  have "hd ?s = hd pre" "last ?s = last l3"
    using pre(1) l3(1) by simp_all
  then have "strip (ws1 @ ?s @ ws2) = ?s"
    using w1 w2 pre(2) l3(2) by (intro strip_exact) simp_all
  moreover have "split_char NL ?s = split_char NL pre @ [l1, l2, l3]"
    using nl by (simp add: split_char_sep split_char_no_sep)
  moreover have "last3 (xs @ [l1, l2, l3]) = [l1, l2, l3]" for xs :: "string list"
    by (simp add: last3_def)
  ultimately show ?thesis
    by (simp add: last_text_def)
qed

lemma startswith_prefix: "startswith x s \<longleftrightarrow> prefix x s"
  unfolding startswith_def prefix_def by (metis append_eq_conv_conj)

lemma no_fence_at_text:
  assumes "\<not> sublist FENCE t" "t \<noteq> []" "last t \<noteq> CHR 0x60"
  shows "\<not> startswith FENCE (t @ s)"
proof
  assume "startswith FENCE (t @ s)"
  then have "prefix FENCE (t @ s)"
    by (simp add: startswith_prefix)
  moreover have "prefix t (t @ s)"
    by simp
  ultimately have "prefix FENCE t \<or> prefix t FENCE"
    by (rule prefix_same_cases)
  then show False
  proof
    assume "prefix FENCE t"
    then have "sublist FENCE t"
      by (rule prefix_imp_sublist)
    with assms(1) show False ..
  next
    assume "prefix t FENCE"
    then have "set t \<subseteq> set FENCE"
      by (rule set_mono_prefix)
    moreover have "last t \<in> set t"
      using assms(2) by simp
    ultimately have "last t \<in> set FENCE"
      by blast
    then show False
      using assms(3) by (simp add: FENCE_def)
  qed
qed

lemma match_fence_not_startswith: "\<not> startswith FENCE s \<Longrightarrow> match_fence s = None"
  by (simp add: match_fence_def)

lemma split_fences_text:
  "\<not> sublist FENCE t \<Longrightarrow> t = [] \<or> last t \<noteq> CHR 0x60 \<Longrightarrow> split_fences s = Some u # parts \<Longrightarrow>
   split_fences (t @ s) = Some (t @ u) # parts"
proof (induction t)
  case Nil
  then show ?case by simp
next
  case (Cons c t)
  have "\<not> startswith FENCE ((c # t) @ s)"
    using Cons.prems(1,2) by (intro no_fence_at_text) simp_all
  then have m: "match_fence (c # t @ s) = None"
    using match_fence_not_startswith by simp
  have "\<not> sublist FENCE t"
    using Cons.prems(1) by (simp add: sublist_Cons_right)
  moreover have "t = [] \<or> last t \<noteq> CHR 0x60"
    using Cons.prems(2) by (cases t) simp_all
  ultimately have "split_fences (t @ s) = Some (t @ u) # parts"
    using Cons.prems(3) by (rule Cons.IH)
  then show ?case
    using m by simp
qed

lemma split_fences_no_fence: "\<not> sublist FENCE s \<Longrightarrow> split_fences s = [Some s]"
proof (induction s)
  case Nil
  then show ?case by simp
next
  case (Cons c s)
  have "\<not> prefix FENCE (c # s)"
    using Cons.prems prefix_imp_sublist by blast
  then have m: "match_fence (c # s) = None"
    by (intro match_fence_not_startswith) (simp add: startswith_prefix)
  have "\<not> sublist FENCE s"
    using Cons.prems by (simp add: sublist_Cons_right)
  then have "split_fences s = [Some s]"
    by (rule Cons.IH)
  then show ?case
    using m by simp
qed

lemma find_first_body:
  "\<not> sublist FENCE body \<Longrightarrow> body = [] \<or> last body \<noteq> CHR 0x60 \<Longrightarrow>
   find_first FENCE (body @ FENCE @ rest) = Some (body, rest)"
proof (induction body)
  case Nil
  then show ?case by (simp add: FENCE_def startswith_def)
next
  case (Cons c body)
  have n: "\<not> startswith FENCE ((c # body) @ FENCE @ rest)"
    using Cons.prems by (intro no_fence_at_text) simp_all
  have "\<not> sublist FENCE body"
    using Cons.prems(1) by (simp add: sublist_Cons_right)
  moreover have "body = [] \<or> last body \<noteq> CHR 0x60"
    using Cons.prems(2) by (cases body) simp_all
  ultimately have "find_first FENCE (body @ FENCE @ rest) = Some (body, rest)"
    by (rule Cons.IH)
  then show ?case
    using n by simp
qed

lemma split_fences_block:
  assumes t: "\<not> sublist FENCE t" "t = [] \<or> last t \<noteq> CHR 0x60"
    and l: "\<forall>c \<in> set lang. isword c"
    and b: "\<not> sublist FENCE body" "body = [] \<or> last body \<noteq> CHR 0x60"
  shows "split_fences ((t @ FENCE @ lang @ [NL] @ body @ FENCE) @ rest) =
     Some t # (if lang = [] then None else Some lang) # Some body # split_fences rest"
proof -
  have f: "find_first FENCE (body @ FENCE @ rest) = Some (body, rest)"
    using b by (rule find_first_body)
  have "split_fences (FENCE @ lang @ [NL] @ body @ FENCE @ rest) =
      Some [] # (if lang = [] then None else Some lang) # Some body # split_fences rest"
    using match_fence_block [OF l f] by (simp add: FENCE_def)
  from split_fences_text [OF t this] show ?thesis
    by simp
qed

lemma split_fences_blocks:
  assumes "\<forall>(t, lang, body) \<in> set bs.
      \<not> sublist FENCE t \<and> (t = [] \<or> last t \<noteq> CHR 0x60) \<and> (\<forall>c \<in> set lang. isword c) \<and>
      \<not> sublist FENCE body \<and> (body = [] \<or> last body \<noteq> CHR 0x60)"
    and "\<not> sublist FENCE tail"
  shows "split_fences
      (concat (map (\<lambda>(t, lang, body). t @ FENCE @ lang @ [NL] @ body @ FENCE) bs) @ tail) =
     concat (map (\<lambda>(t, lang, body). [Some t, if lang = [] then None else Some lang, Some body]) bs)
       @ [Some tail]"
  using assms
proof (induction bs)
  case Nil
  then show ?case by (simp add: split_fences_no_fence)
next
  case (Cons b bs)
  obtain t lang body where b: "b = (t, lang, body)" by (cases b)
  have c: "\<not> sublist FENCE t" "t = [] \<or> last t \<noteq> CHR 0x60" "\<forall>c \<in> set lang. isword c"
      "\<not> sublist FENCE body" "body = [] \<or> last body \<noteq> CHR 0x60"
    using Cons.prems(1) b by simp_all
  let ?rest = "concat (map (\<lambda>(t, lang, body). t @ FENCE @ lang @ [NL] @ body @ FENCE) bs) @ tail"
  have "split_fences ((t @ FENCE @ lang @ [NL] @ body @ FENCE) @ ?rest) =
      Some t # (if lang = [] then None else Some lang) # Some body # split_fences ?rest"
    using c by (rule split_fences_block)
  moreover have "split_fences ?rest =
      concat (map (\<lambda>(t, lang, body). [Some t, if lang = [] then None else Some lang, Some body]) bs)
        @ [Some tail]"
    using Cons by simp
  ultimately show ?case
    using b by simp
qed

lemma extract_loop_blocks:
  "i mod 3 = 0 \<Longrightarrow>
   extract_loop i prev
     (concat (map (\<lambda>(t, lang, body). [Some t, if lang = [] then None else Some lang, Some body]) bs)
        @ [Some tail]) tps exs =
   (tps @ map fst bs @ [tail],
    exs @ map (\<lambda>(t, lang, body).
       \<lparr>ex_code = strip body,
         ex_language = (if lang = [] then ''text'' else lang),
         ex_is_correct = is_correct_example t (strip body),
         ex_explanation = None\<rparr>) bs)"
proof (induction bs arbitrary: i prev tps exs)
  case Nil
  then show ?case by simp
next
  case (Cons b bs)
  obtain t lang body where b: "b = (t, lang, body)" by (cases b)
  let ?parts = "concat (map (\<lambda>(t, lang, body).
      [Some t, if lang = [] then None else Some lang, Some body]) bs) @ [Some tail]"
  let ?l = "if lang = [] then None else Some lang"
  let ?e = "\<lparr>ex_code = strip body,
         ex_language = (if lang = [] then ''text'' else lang),
         ex_is_correct = is_correct_example t (strip body),
         ex_explanation = None\<rparr>"
  have i: "(i + 1) mod 3 = 1" "(i + 1 + 1) mod 3 = 2" "(i + 1 + 1 + 1) mod 3 = 0"
    using Cons.prems by presburger+
  have "extract_loop i prev (Some t # ?l # Some body # ?parts) tps exs =
      extract_loop (i + 1) (Some t) (?l # Some body # ?parts) (tps @ [t]) exs"
    using Cons.prems by simp
  also have "\<dots> = extract_loop (i + 1 + 1) ?l (Some body # ?parts) (tps @ [t]) exs"
    using i(1) by simp
  also have "\<dots> = extract_loop (i + 1 + 1 + 1) (Some body) ?parts (tps @ [t]) (exs @ [?e])"
    using i(2) by (simp add: Let_def)
  also have "\<dots> = ((tps @ [t]) @ map fst bs @ [tail],
      (exs @ [?e]) @ map (\<lambda>(t, lang, body).
       \<lparr>ex_code = strip body,
         ex_language = (if lang = [] then ''text'' else lang),
         ex_is_correct = is_correct_example t (strip body),
         ex_explanation = None\<rparr>) bs)"
    using i(3) by (rule Cons.IH)
  finally show ?case
    using b by simp
qed

lemma extract_blocks:
  assumes "\<forall>(t, lang, body) \<in> set bs.
      \<not> sublist FENCE t \<and> (t = [] \<or> last t \<noteq> CHR 0x60) \<and> (\<forall>c \<in> set lang. isword c) \<and>
      \<not> sublist FENCE body \<and> (body = [] \<or> last body \<noteq> CHR 0x60)"
    and "\<not> sublist FENCE tail"
  shows "extract_content_and_examples
      (concat (map (\<lambda>(t, lang, body). t @ FENCE @ lang @ [NL] @ body @ FENCE) bs) @ tail) =
     (concat (map fst bs) @ tail,
      map (\<lambda>(t, lang, body).
        \<lparr>ex_code = strip body,
          ex_language = (if lang = [] then ''text'' else lang),
          ex_is_correct = is_correct_example t (strip body),
          ex_explanation = None\<rparr>) bs)"
  unfolding extract_content_and_examples_def split_fences_blocks [OF assms]
  using extract_loop_blocks [of 0 None bs tail "[]" "[]"] by simp


text \<open>
  C6. The classification of a code block looks at the last three lines of the stripped text
  before the block, joined by blanks, in lower case. When one of the incorrect indicators
  ("wrong", "incorrect", "bad", "don't", "never", "avoid", the cross mark) occurs there, the
  block is incorrect; otherwise, when one of the correct indicators ("correct", "right",
  "good", "do this", the check mark) occurs there, it is correct; otherwise it is incorrect
  when the code holds one of the markers "# WRONG", "# BAD" or "# " with the cross mark, and
  correct in every other case (the markers of a correct example and the default). A text
  before the block that ends with the cross mark, " WRONG:" and white space only makes the
  block incorrect, whatever the code is. The first block of a body is classified with the
  text before its fence.

  The text that is looked at: for a text that is, between white space, the lines \<open>ls\<close>
  joined by line feeds, it is the last three of the lines (all of them when there are at
  most three); so for a text of more than three lines nothing before the last three lines
  counts.

  Every block of a body is classified with the text between the block before it (or the
  start of the body) and its own fence: a body made of the texts and blocks \<open>bs\<close> and a
  last text has one example for every block, in their order, with the stripped code, the
  language (or "text") and the classification of the code after the text of that block.
  A text or a code of \<open>bs\<close> holds no fence and does not end with a grave accent.
\<close>

theorem example_classification:
  "((\<exists>ind \<in> set incorrect_indicators. sublist ind (last_text p)) \<longrightarrow> \<not> is_correct_example p c) \<and>
   ((\<forall>ind \<in> set incorrect_indicators. \<not> sublist ind (last_text p)) \<and>
    (\<exists>ind \<in> set correct_indicators. sublist ind (last_text p)) \<longrightarrow> is_correct_example p c) \<and>
   ((\<forall>ind \<in> set incorrect_indicators. \<not> sublist ind (last_text p)) \<and>
    (\<forall>ind \<in> set correct_indicators. \<not> sublist ind (last_text p)) \<and>
    (sublist ''# WRONG'' c \<or> sublist ''# BAD'' c \<or> sublist (''# '' @ CROSS_MARK) c)
      \<longrightarrow> \<not> is_correct_example p c) \<and>
   ((\<forall>ind \<in> set incorrect_indicators. \<not> sublist ind (last_text p)) \<and>
    (\<forall>ind \<in> set correct_indicators. \<not> sublist ind (last_text p)) \<and>
    \<not> (sublist ''# WRONG'' c \<or> sublist ''# BAD'' c \<or> sublist (''# '' @ CROSS_MARK) c)
      \<longrightarrow> is_correct_example p c) \<and>
   ((\<forall>ch \<in> set ws. isspace ch) \<longrightarrow>
      \<not> is_correct_example (pre @ (CROSS_MARK @ '' WRONG:'') @ ws) c) \<and>
   (CHR 0x60 \<notin> set before \<and> (\<forall>ch \<in> set lang. isword ch) \<and>
    find_first FENCE rest = Some (body, after) \<longrightarrow>
      (\<exists>exs. snd (extract_content_and_examples (before @ FENCE @ lang @ [NL] @ rest)) =
         \<lparr>ex_code = strip body,
           ex_language = (if lang = [] then ''text'' else lang),
           ex_is_correct = is_correct_example before (strip body),
           ex_explanation = None\<rparr> # exs)) \<and>
   ((\<forall>ch \<in> set ws1. isspace ch) \<and> (\<forall>ch \<in> set ws2. isspace ch) \<and>
    ls \<noteq> [] \<and> (\<forall>l \<in> set ls. NL \<notin> set l) \<and>
    (join [NL] ls = [] \<or>
     (\<not> isspace (hd (join [NL] ls)) \<and> \<not> isspace (last (join [NL] ls)))) \<longrightarrow>
      last_text (ws1 @ join [NL] ls @ ws2) = lower (join '' '' (drop (length ls - 3) ls))) \<and>
   ((\<forall>ch \<in> set ws1. isspace ch) \<and> (\<forall>ch \<in> set ws2. isspace ch) \<and>
    NL \<notin> set l1 \<and> NL \<notin> set l2 \<and> NL \<notin> set l3 \<and>
    pre \<noteq> [] \<and> \<not> isspace (hd pre) \<and> l3 \<noteq> [] \<and> \<not> isspace (last l3) \<longrightarrow>
      last_text (ws1 @ (pre @ [NL] @ l1 @ [NL] @ l2 @ [NL] @ l3) @ ws2) =
        lower (l1 @ '' '' @ l2 @ '' '' @ l3)) \<and>
   ((\<forall>(t, lang, body) \<in> set bs.
       \<not> sublist FENCE t \<and> (t = [] \<or> last t \<noteq> CHR 0x60) \<and> (\<forall>ch \<in> set lang. isword ch) \<and>
       \<not> sublist FENCE body \<and> (body = [] \<or> last body \<noteq> CHR 0x60)) \<and>
    \<not> sublist FENCE tail \<longrightarrow>
      extract_content_and_examples
        (concat (map (\<lambda>(t, lang, body). t @ FENCE @ lang @ [NL] @ body @ FENCE) bs) @ tail) =
      (concat (map fst bs) @ tail,
       map (\<lambda>(t, lang, body).
         \<lparr>ex_code = strip body,
           ex_language = (if lang = [] then ''text'' else lang),
           ex_is_correct = is_correct_example t (strip body),
           ex_explanation = None\<rparr>) bs))"
proof -
  have neg: "list_ex (\<lambda>i. contains i t) incorrect_indicators \<longleftrightarrow>
      (\<exists>ind \<in> set incorrect_indicators. sublist ind t)" for t
    by (simp add: list_ex_iff contains_sublist)
  have pos: "list_ex (\<lambda>i. contains i t) correct_indicators \<longleftrightarrow>
      (\<exists>ind \<in> set correct_indicators. sublist ind t)" for t
    by (simp add: list_ex_iff contains_sublist)
  have a: "(\<exists>ind \<in> set incorrect_indicators. sublist ind (last_text p)) \<longrightarrow> \<not> is_correct_example p c"
    by (simp add: is_correct_example_def neg)
  have b: "(\<forall>ind \<in> set incorrect_indicators. \<not> sublist ind (last_text p)) \<and>
    (\<exists>ind \<in> set correct_indicators. sublist ind (last_text p)) \<longrightarrow> is_correct_example p c"
    by (simp add: is_correct_example_def neg pos)
  have c: "(\<forall>ind \<in> set incorrect_indicators. \<not> sublist ind (last_text p)) \<and>
    (\<forall>ind \<in> set correct_indicators. \<not> sublist ind (last_text p)) \<and>
    (sublist ''# WRONG'' c \<or> sublist ''# BAD'' c \<or> sublist (''# '' @ CROSS_MARK) c)
      \<longrightarrow> \<not> is_correct_example p c"
    by (simp add: is_correct_example_def list_ex_iff contains_sublist)
  have d: "(\<forall>ind \<in> set incorrect_indicators. \<not> sublist ind (last_text p)) \<and>
    (\<forall>ind \<in> set correct_indicators. \<not> sublist ind (last_text p)) \<and>
    \<not> (sublist ''# WRONG'' c \<or> sublist ''# BAD'' c \<or> sublist (''# '' @ CROSS_MARK) c)
      \<longrightarrow> is_correct_example p c"
    by (simp add: is_correct_example_def list_ex_iff contains_sublist)
  have e: "(\<forall>ch \<in> set ws. isspace ch) \<longrightarrow>
      \<not> is_correct_example (pre @ (CROSS_MARK @ '' WRONG:'') @ ws) c"
    using cross_wrong_incorrect by blast
  have f: "CHR 0x60 \<notin> set before \<and> (\<forall>ch \<in> set lang. isword ch) \<and>
    find_first FENCE rest = Some (body, after) \<longrightarrow>
      (\<exists>exs. snd (extract_content_and_examples (before @ FENCE @ lang @ [NL] @ rest)) =
         \<lparr>ex_code = strip body,
           ex_language = (if lang = [] then ''text'' else lang),
           ex_is_correct = is_correct_example before (strip body),
           ex_explanation = None\<rparr> # exs)"
    using extract_first_block by blast
  have g: "(\<forall>ch \<in> set ws1. isspace ch) \<and> (\<forall>ch \<in> set ws2. isspace ch) \<and>
    ls \<noteq> [] \<and> (\<forall>l \<in> set ls. NL \<notin> set l) \<and>
    (join [NL] ls = [] \<or>
     (\<not> isspace (hd (join [NL] ls)) \<and> \<not> isspace (last (join [NL] ls)))) \<longrightarrow>
      last_text (ws1 @ join [NL] ls @ ws2) = lower (join '' '' (drop (length ls - 3) ls))"
    using last_text_lines [of ws1 ws2 ls] by blast
  have h: "(\<forall>ch \<in> set ws1. isspace ch) \<and> (\<forall>ch \<in> set ws2. isspace ch) \<and>
    NL \<notin> set l1 \<and> NL \<notin> set l2 \<and> NL \<notin> set l3 \<and>
    pre \<noteq> [] \<and> \<not> isspace (hd pre) \<and> l3 \<noteq> [] \<and> \<not> isspace (last l3) \<longrightarrow>
      last_text (ws1 @ (pre @ [NL] @ l1 @ [NL] @ l2 @ [NL] @ l3) @ ws2) =
        lower (l1 @ '' '' @ l2 @ '' '' @ l3)"
    using last_text_three_lines [of ws1 ws2 l1 l2 l3 pre] by blast
  have i: "(\<forall>(t, lang, body) \<in> set bs.
       \<not> sublist FENCE t \<and> (t = [] \<or> last t \<noteq> CHR 0x60) \<and> (\<forall>ch \<in> set lang. isword ch) \<and>
       \<not> sublist FENCE body \<and> (body = [] \<or> last body \<noteq> CHR 0x60)) \<and>
    \<not> sublist FENCE tail \<longrightarrow>
      extract_content_and_examples
        (concat (map (\<lambda>(t, lang, body). t @ FENCE @ lang @ [NL] @ body @ FENCE) bs) @ tail) =
      (concat (map fst bs) @ tail,
       map (\<lambda>(t, lang, body).
         \<lparr>ex_code = strip body,
           ex_language = (if lang = [] then ''text'' else lang),
           ex_is_correct = is_correct_example t (strip body),
           ex_explanation = None\<rparr>) bs)"
    using extract_blocks [of bs tail] by blast
  from a b c d e f g h i show ?thesis by (intro conjI)
qed

theorem example_classification_witness:
  "\<not> is_correct_example ''This is bad practice:'' ''ls'' \<and>
   is_correct_example ''Do this instead:'' ''# WRONG'' \<and>
   \<not> is_correct_example ''Example:'' ''rm -rf / # BAD'' \<and>
   is_correct_example ''Example:'' ''ls -l'' \<and>
   \<not> is_correct_example ((''Secrets.'' @ [NL]) @ (CROSS_MARK @ '' WRONG:'') @ [NL]) ''# GOOD'' \<and>
   snd (extract_content_and_examples
      (((''Secrets.'' @ [NL]) @ (CROSS_MARK @ '' WRONG:'') @ [NL]) @ FENCE @ ''bash'' @ [NL] @
       (''# GOOD'' @ [NL] @ FENCE @ '' tail''))) =
     [\<lparr>ex_code = ''# GOOD'', ex_language = ''bash'', ex_is_correct = False,
        ex_explanation = None\<rparr>] \<and>
   last_text ([NL] @ join [NL] [''Do this:'', ''x''] @ '' '') = ''do this: x'' \<and>
   last_text ([] @ (''Never this:'' @ [NL] @ ''a'' @ [NL] @ [] @ [NL] @ ''b'') @ ([NL] @ '' '')) =
     ''a  b'' \<and>
   is_correct_example
     ([] @ (''Never this:'' @ [NL] @ ''a'' @ [NL] @ [] @ [NL] @ ''b'') @ ([NL] @ '' '')) ''ls'' \<and>
   map (\<lambda>e. (ex_code e, ex_language e, ex_is_correct e))
     (snd (extract_content_and_examples
        (''Right way:'' @ [NL] @ FENCE @ ''bash'' @ [NL] @ ''ls'' @ [NL] @ FENCE @
         [NL] @ CROSS_MARK @ '' WRONG:'' @ [NL] @ FENCE @ [NL] @ ''rm # GOOD'' @ [NL] @ FENCE @
         [NL] @ ''done''))) =
     [(''ls'', ''bash'', True), (''rm # GOOD'', ''text'', False)]"
proof -
  note T = example_classification
  have h1: "\<exists>ind \<in> set incorrect_indicators. sublist ind (last_text ''This is bad practice:'')"
    unfolding sublist_contains by code_simp
  have f1: "\<not> is_correct_example ''This is bad practice:'' ''ls''"
    using T [THEN conjunct1, THEN mp, OF h1] .
  have h2: "(\<forall>ind \<in> set incorrect_indicators. \<not> sublist ind (last_text ''Do this instead:'')) \<and>
    (\<exists>ind \<in> set correct_indicators. sublist ind (last_text ''Do this instead:''))"
    unfolding sublist_contains by code_simp
  have f2: "is_correct_example ''Do this instead:'' ''# WRONG''"
    using T [THEN conjunct2, THEN conjunct1, THEN mp, OF h2] .
  have h3: "(\<forall>ind \<in> set incorrect_indicators. \<not> sublist ind (last_text ''Example:'')) \<and>
    (\<forall>ind \<in> set correct_indicators. \<not> sublist ind (last_text ''Example:'')) \<and>
    (sublist ''# WRONG'' ''rm -rf / # BAD'' \<or> sublist ''# BAD'' ''rm -rf / # BAD'' \<or>
     sublist (''# '' @ CROSS_MARK) ''rm -rf / # BAD'')"
    unfolding sublist_contains by code_simp
  have f3: "\<not> is_correct_example ''Example:'' ''rm -rf / # BAD''"
    using T [THEN conjunct2, THEN conjunct2, THEN conjunct1, THEN mp, OF h3] .
  have h4: "(\<forall>ind \<in> set incorrect_indicators. \<not> sublist ind (last_text ''Example:'')) \<and>
    (\<forall>ind \<in> set correct_indicators. \<not> sublist ind (last_text ''Example:'')) \<and>
    \<not> (sublist ''# WRONG'' ''ls -l'' \<or> sublist ''# BAD'' ''ls -l'' \<or>
     sublist (''# '' @ CROSS_MARK) ''ls -l'')"
    unfolding sublist_contains by code_simp
  have f4: "is_correct_example ''Example:'' ''ls -l''"
    using T [THEN conjunct2, THEN conjunct2, THEN conjunct2, THEN conjunct1, THEN mp, OF h4] .
  have h5: "\<forall>ch \<in> set [NL]. isspace ch"
    by code_simp
  have f5: "\<not> is_correct_example ((''Secrets.'' @ [NL]) @ (CROSS_MARK @ '' WRONG:'') @ [NL]) ''# GOOD''"
    using T [THEN conjunct2, THEN conjunct2, THEN conjunct2, THEN conjunct2, THEN conjunct1,
        THEN mp, OF h5] .
  let ?before = "(''Secrets.'' @ [NL]) @ (CROSS_MARK @ '' WRONG:'') @ [NL]"
  let ?rest = "''# GOOD'' @ [NL] @ FENCE @ '' tail''"
  have h6: "CHR 0x60 \<notin> set ?before \<and> (\<forall>ch \<in> set ''bash''. isword ch) \<and>
    find_first FENCE ?rest = Some (''# GOOD'' @ [NL], '' tail'')"
    by code_simp
  obtain exs where e: "snd (extract_content_and_examples (?before @ FENCE @ ''bash'' @ [NL] @ ?rest)) =
      \<lparr>ex_code = strip (''# GOOD'' @ [NL]),
        ex_language = (if ''bash'' = [] then ''text'' else ''bash''),
        ex_is_correct = is_correct_example ?before (strip (''# GOOD'' @ [NL])),
        ex_explanation = None\<rparr> # exs"
    using T [THEN conjunct2, THEN conjunct2, THEN conjunct2, THEN conjunct2, THEN conjunct2,
        THEN conjunct1, THEN mp, OF h6] by blast
  have "length (snd (extract_content_and_examples (?before @ FENCE @ ''bash'' @ [NL] @ ?rest))) = 1"
    by code_simp
  with e have "exs = []"
    by simp
  moreover have "strip (''# GOOD'' @ [NL]) = ''# GOOD''"
    by code_simp
  ultimately have f6: "snd (extract_content_and_examples (?before @ FENCE @ ''bash'' @ [NL] @ ?rest)) =
     [\<lparr>ex_code = ''# GOOD'', ex_language = ''bash'', ex_is_correct = False,
        ex_explanation = None\<rparr>]"
    using e f5 by simp
  let ?ls = "[''Do this:'', ''x'']"
  have h7: "(\<forall>ch \<in> set [NL]. isspace ch) \<and> (\<forall>ch \<in> set '' ''. isspace ch) \<and>
    ?ls \<noteq> [] \<and> (\<forall>l \<in> set ?ls. NL \<notin> set l) \<and>
    (join [NL] ?ls = [] \<or>
     (\<not> isspace (hd (join [NL] ?ls)) \<and> \<not> isspace (last (join [NL] ?ls))))"
    by code_simp
  have r7: "lower (join '' '' (drop (length ?ls - 3) ?ls)) = ''do this: x''"
    by code_simp
  have "last_text ([NL] @ join [NL] ?ls @ '' '') = lower (join '' '' (drop (length ?ls - 3) ?ls))"
    using T [THEN conjunct2, THEN conjunct2, THEN conjunct2, THEN conjunct2, THEN conjunct2,
        THEN conjunct2, THEN conjunct1, THEN mp, OF h7] .
  then have f7: "last_text ([NL] @ join [NL] ?ls @ '' '') = ''do this: x''"
    unfolding r7 .
  let ?p = "[] @ (''Never this:'' @ [NL] @ ''a'' @ [NL] @ [] @ [NL] @ ''b'') @ ([NL] @ '' '')"
  have h8: "(\<forall>ch \<in> set ([] :: string). isspace ch) \<and> (\<forall>ch \<in> set ([NL] @ '' ''). isspace ch) \<and>
    NL \<notin> set ''a'' \<and> NL \<notin> set ([] :: string) \<and> NL \<notin> set ''b'' \<and>
    ''Never this:'' \<noteq> [] \<and> \<not> isspace (hd ''Never this:'') \<and> ''b'' \<noteq> [] \<and>
    \<not> isspace (last ''b'')"
    by code_simp
  have r8: "lower (''a'' @ '' '' @ [] @ '' '' @ ''b'') = ''a  b''"
    by code_simp
  have "last_text ?p = lower (''a'' @ '' '' @ [] @ '' '' @ ''b'')"
    using T [THEN conjunct2, THEN conjunct2, THEN conjunct2, THEN conjunct2, THEN conjunct2,
        THEN conjunct2, THEN conjunct2, THEN conjunct1, THEN mp, OF h8] .
  then have f8: "last_text ?p = ''a  b''"
    unfolding r8 .
  have "(\<forall>ind \<in> set incorrect_indicators. \<not> sublist ind ''a  b'') \<and>
    (\<forall>ind \<in> set correct_indicators. \<not> sublist ind ''a  b'') \<and>
    \<not> (sublist ''# WRONG'' ''ls'' \<or> sublist ''# BAD'' ''ls'' \<or>
     sublist (''# '' @ CROSS_MARK) ''ls'')"
    unfolding sublist_contains by code_simp
  then have h9: "(\<forall>ind \<in> set incorrect_indicators. \<not> sublist ind (last_text ?p)) \<and>
    (\<forall>ind \<in> set correct_indicators. \<not> sublist ind (last_text ?p)) \<and>
    \<not> (sublist ''# WRONG'' ''ls'' \<or> sublist ''# BAD'' ''ls'' \<or>
     sublist (''# '' @ CROSS_MARK) ''ls'')"
    unfolding f8 .
  have f9: "is_correct_example ?p ''ls''"
    using T [THEN conjunct2, THEN conjunct2, THEN conjunct2, THEN conjunct1, THEN mp, OF h9] .
  let ?bs = "[(''Right way:'' @ [NL], ''bash'', ''ls'' @ [NL]),
      ([NL] @ CROSS_MARK @ '' WRONG:'' @ [NL], [], ''rm # GOOD'' @ [NL])]"
  let ?tail = "[NL] @ ''done''"
  let ?doc = "''Right way:'' @ [NL] @ FENCE @ ''bash'' @ [NL] @ ''ls'' @ [NL] @ FENCE @
         [NL] @ CROSS_MARK @ '' WRONG:'' @ [NL] @ FENCE @ [NL] @ ''rm # GOOD'' @ [NL] @ FENCE @
         [NL] @ ''done''"
  have h10: "(\<forall>(t, lang, body) \<in> set ?bs.
       \<not> sublist FENCE t \<and> (t = [] \<or> last t \<noteq> CHR 0x60) \<and> (\<forall>ch \<in> set lang. isword ch) \<and>
       \<not> sublist FENCE body \<and> (body = [] \<or> last body \<noteq> CHR 0x60)) \<and>
    \<not> sublist FENCE ?tail"
    unfolding sublist_contains by code_simp
  have r10: "concat (map (\<lambda>(t, lang, body). t @ FENCE @ lang @ [NL] @ body @ FENCE) ?bs) @ ?tail =
      ?doc"
    by code_simp
  have v10: "map (\<lambda>e. (ex_code e, ex_language e, ex_is_correct e))
      (map (\<lambda>(t, lang, body).
         \<lparr>ex_code = strip body,
           ex_language = (if lang = [] then ''text'' else lang),
           ex_is_correct = is_correct_example t (strip body),
           ex_explanation = None\<rparr>) ?bs) =
      [(''ls'', ''bash'', True), (''rm # GOOD'', ''text'', False)]"
    by code_simp
  have "extract_content_and_examples
        (concat (map (\<lambda>(t, lang, body). t @ FENCE @ lang @ [NL] @ body @ FENCE) ?bs) @ ?tail) =
      (concat (map fst ?bs) @ ?tail,
       map (\<lambda>(t, lang, body).
         \<lparr>ex_code = strip body,
           ex_language = (if lang = [] then ''text'' else lang),
           ex_is_correct = is_correct_example t (strip body),
           ex_explanation = None\<rparr>) ?bs)"
    using T [THEN conjunct2, THEN conjunct2, THEN conjunct2, THEN conjunct2, THEN conjunct2,
        THEN conjunct2, THEN conjunct2, THEN conjunct2, THEN mp, OF h10] .
  then have "snd (extract_content_and_examples ?doc) =
       map (\<lambda>(t, lang, body).
         \<lparr>ex_code = strip body,
           ex_language = (if lang = [] then ''text'' else lang),
           ex_is_correct = is_correct_example t (strip body),
           ex_explanation = None\<rparr>) ?bs"
    unfolding r10 by (simp only: snd_conv)
  then have f10: "map (\<lambda>e. (ex_code e, ex_language e, ex_is_correct e))
      (snd (extract_content_and_examples ?doc)) =
      [(''ls'', ''bash'', True), (''rm # GOOD'', ''text'', False)]"
    using v10 by (simp only:)
  show ?thesis
    by (intro conjI f1 f2 f3 f4 f5 f6 f7 f8 f9 f10)
qed

section \<open>Headers with the same title\<close>

lemma sections_loop_heading_loop:
  "split_into_sections_loop lines d cur content =
   heading_loop (startswith ''## '') section_title_of lines d cur content"
  by (induction lines arbitrary: d cur content) simp_all

lemma subsections_loop_heading_loop:
  "split_into_subsections_loop lines d cur content =
   heading_loop (startswith ''### '') subsection_title_of lines d cur content"
  by (induction lines arbitrary: d cur content) simp_all

lemma map_of_dict_set: "map_of (dict_set d k v) = (map_of d)(k \<mapsto> v)"
  by (induction d k v rule: dict_set.induct) auto

lemma keys_dict_set: "set (map fst (dict_set d k v)) = insert k (set (map fst d))"
  by (induction d k v rule: dict_set.induct) auto

lemma distinct_dict_set: "distinct (map fst d) \<Longrightarrow> distinct (map fst (dict_set d k v))"
proof (induction d k v rule: dict_set.induct)
  case (1 k v)
  then show ?case by simp
next
  case (2 k' v' d k v)
  then show ?case
    using keys_dict_set [of d k v] by auto
qed

lemma heading_loop_distinct:
  "distinct (map fst d) \<Longrightarrow> distinct (map fst (heading_loop H T lines d cur content))"
  by (induction lines arbitrary: d cur content) (simp_all add: distinct_dict_set)

lemma heading_loop_body:
  "\<forall>l \<in> set body. \<not> H l \<Longrightarrow> truthy cur \<Longrightarrow>
   heading_loop H T (body @ rest) d cur content = heading_loop H T rest d cur (content @ body)"
  by (induction body arbitrary: content) simp_all

lemma heading_loop_other:
  "\<forall>l \<in> set lines. H l \<longrightarrow> T l \<noteq> t \<Longrightarrow> cur \<noteq> Some t \<Longrightarrow>
   map_of (heading_loop H T lines d cur content) t = map_of d t"
proof (induction lines arbitrary: d cur content)
  case Nil
  then show ?case
    by (cases cur) (auto simp: map_of_dict_set)
next
  case (Cons l lines)
  show ?case
  proof (cases "H l")
    case True
    then have "T l \<noteq> t" using Cons.prems by simp
    then have "map_of (heading_loop H T (l # lines) d cur content) t =
        map_of (if truthy cur then dict_set d (the cur) (join [NL] content) else d) t"
      using True Cons.prems by (simp add: Cons.IH)
    also have "\<dots> = map_of d t"
      using Cons.prems(2) by (cases cur) (auto simp: map_of_dict_set)
    finally show ?thesis .
  next
    case False
    then show ?thesis
      using Cons by simp
  qed
qed

lemma heading_loop_last:
  assumes h: "H h" "T h = t" "t \<noteq> []"
    and body: "\<forall>l \<in> set body. \<not> H l"
    and rest: "rest = [] \<or> H (hd rest)"
    and other: "\<forall>l \<in> set rest. H l \<longrightarrow> T l \<noteq> t"
  shows "map_of (heading_loop H T (pre @ h # body @ rest) d cur content) t = Some (join [NL] body)"
proof (induction pre arbitrary: d cur content)
  case Nil
  let ?d = "if truthy cur then dict_set d (the cur) (join [NL] content) else d"
  have "heading_loop H T (h # body @ rest) d cur content =
      heading_loop H T (body @ rest) ?d (Some t) []"
    using h by simp
  also have "\<dots> = heading_loop H T rest ?d (Some t) body"
    using heading_loop_body [OF body, of "Some t" T rest ?d "[]"] h(3) by simp
  finally have e: "heading_loop H T (h # body @ rest) d cur content =
      heading_loop H T rest ?d (Some t) body" .
  show ?case
  proof (cases rest)
    case Nil
    then show ?thesis
      using e h(3) by (simp add: map_of_dict_set)
  next
    case (Cons r rest')
    then have r: "H r" "T r \<noteq> t" and o: "\<forall>l \<in> set rest'. H l \<longrightarrow> T l \<noteq> t"
      using rest other by auto
    have "map_of (heading_loop H T rest ?d (Some t) body) t =
        map_of (dict_set ?d t (join [NL] body)) t"
      using Cons r h(3) heading_loop_other [OF o, of "Some (T r)"] by simp
    then show ?thesis
      using e by (simp add: map_of_dict_set)
  qed
next
  case (Cons l pre)
  then show ?case by simp
qed

lemma create_rule_section: "create_rule s sub c p sc tg = Some r \<Longrightarrow> r_section r = s"
  by (auto simp: create_rule_def split: prod.splits if_splits)

lemma parse_section_section: "r \<in> set (parse_section t c) \<Longrightarrow> r_section r = t"
  by (auto simp: parse_section_def Let_def List.map_filter_def create_rule_section
      split: if_splits option.splits)

lemma filter_parse_section:
  "filter (\<lambda>r. r_section r = t) (parse_section t' c) = (if t' = t then parse_section t' c else [])"
  using parse_section_section [of _ t' c] by (auto simp: filter_empty_conv)

lemma concat_single_key:
  "distinct (map fst d) \<Longrightarrow> map_of d t = Some v \<Longrightarrow>
   concat (map (\<lambda>(k, c). if k = t then f k c else []) d) = f t v"
proof (induction d)
  case Nil
  then show ?case by simp
next
  case (Cons kv d)
  obtain k c where kv: "kv = (k, c)" by (cases kv)
  show ?case
  proof (cases "k = t")
    case True
    then have "t \<notin> fst ` set d" using Cons.prems kv by auto
    then have "concat (map (\<lambda>(k, c). if k = t then f k c else []) d) = []"
      by (induction d) auto
    then show ?thesis using True kv Cons.prems by simp
  next
    case False
    then show ?thesis using kv Cons by simp
  qed
qed

lemma rules_of_title:
  assumes "distinct (map fst (split_into_sections doc))"
    and "map_of (split_into_sections doc) t = Some v"
  shows "filter (\<lambda>r. r_section r = t) (parse doc) = parse_section t v"
proof -
  have "filter (\<lambda>r. r_section r = t) (parse doc) =
      concat (map (\<lambda>(k, c). if k = t then parse_section k c else []) (split_into_sections doc))"
    by (simp add: parse_def filter_concat comp_def case_prod_unfold filter_parse_section)
  then show ?thesis
    using concat_single_key [OF assms, of parse_section] by simp
qed

lemma heading_loop_keys:
  "[] \<notin> fst ` set d \<Longrightarrow> [] \<notin> fst ` set (heading_loop H T lines d cur content)"
proof (induction lines arbitrary: d cur content)
  case Nil
  have "[] \<notin> fst ` set (dict_set d (the cur) (join [NL] content))" if "truthy cur"
    using that Nil keys_dict_set [of d "the cur" "join [NL] content"] by (cases cur) auto
  then show ?case
    using Nil by simp
next
  case (Cons l lines)
  have k: "[] \<notin> fst ` set (dict_set d (the cur) (join [NL] content))" if "truthy cur"
    using that Cons.prems keys_dict_set [of d "the cur" "join [NL] content"] by (cases cur) auto
  show ?case
  proof (cases "H l")
    case True
    let ?d = "if truthy cur then dict_set d (the cur) (join [NL] content) else d"
    have "[] \<notin> fst ` set ?d"
      using k Cons.prems by simp
    then have "[] \<notin> fst ` set (heading_loop H T lines ?d (Some (T l)) [])"
      by (rule Cons.IH)
    then show ?thesis
      using True by simp
  next
    case False
    then show ?thesis
      using Cons.IH [OF Cons.prems] by simp
  qed
qed

lemma sections_no_empty_title: "[] \<notin> fst ` set (split_into_sections doc)"
  unfolding split_into_sections_def sections_loop_heading_loop
  by (rule heading_loop_keys) simp

lemma subsections_no_empty_title: "[] \<notin> fst ` set (split_into_subsections doc)"
  unfolding split_into_subsections_def subsections_loop_heading_loop
  by (rule heading_loop_keys) simp

lemma parse_sections: "r \<in> set (parse doc) \<Longrightarrow> r_section r \<in> fst ` set (split_into_sections doc)"
proof -
  assume "r \<in> set (parse doc)"
  then obtain t c where tc: "(t, c) \<in> set (split_into_sections doc)" and r: "r \<in> set (parse_section t c)"
    by (auto simp: parse_def)
  from r have "r_section r = t"
    by (rule parse_section_section)
  then show ?thesis
    using tc by force
qed

lemma no_rule_of_empty_section: "filter (\<lambda>r. r_section r = []) (parse doc) = []"
proof -
  have "r_section r \<noteq> []" if "r \<in> set (parse doc)" for r
  proof
    assume "r_section r = []"
    with parse_sections [OF that] have "[] \<in> fst ` set (split_into_sections doc)"
      by simp
    then show False
      using sections_no_empty_title [of doc] by simp
  qed
  then show ?thesis
    by (simp add: filter_empty_conv)
qed

lemma create_rule_subsection: "create_rule s sub c p sc tg = Some r \<Longrightarrow> r_subsection r = sub"
  by (auto simp: create_rule_def split: prod.splits if_splits)

lemma map_filter_single_key:
  assumes key: "\<And>k c r. f (k, c) = Some r \<Longrightarrow> g r = k"
  shows "distinct (map fst d) \<Longrightarrow> map_of d t = Some v \<Longrightarrow>
   filter (\<lambda>r. g r = t) (List.map_filter f d) = (case f (t, v) of None \<Rightarrow> [] | Some r \<Rightarrow> [r])"
proof (induction d)
  case Nil
  then show ?case by simp
next
  case (Cons kv d)
  obtain k c where kv: "kv = (k, c)" by (cases kv)
  have none: "filter (\<lambda>r. g r = t) (List.map_filter f d') = []" if "t \<notin> fst ` set d'" for d'
    using that
  proof (induction d')
    case Nil
    then show ?case by (simp add: List.map_filter_def)
  next
    case (Cons kv' d')
    obtain k' c' where kv': "kv' = (k', c')" by (cases kv')
    have "k' \<noteq> t" using Cons.prems kv' by auto
    then have "filter (\<lambda>r. g r = t) (List.map_filter f [(k', c')]) = []"
      using key [of k' c'] by (cases "f (k', c')") (auto simp: List.map_filter_def)
    moreover have "filter (\<lambda>r. g r = t) (List.map_filter f d') = []"
      using Cons by simp
    ultimately show ?case
      using kv' by (cases "f (k', c')") (auto simp: List.map_filter_def)
  qed
  show ?case
  proof (cases "k = t")
    case True
    then have "t \<notin> fst ` set d" and v: "c = v"
      using Cons.prems kv by auto
    then have "filter (\<lambda>r. g r = t) (List.map_filter f d) = []"
      using none by simp
    then show ?thesis
      using True kv v key [of t v] by (cases "f (t, v)") (auto simp: List.map_filter_def)
  next
    case False
    then have "filter (\<lambda>r. g r = t) (List.map_filter f [(k, c)]) = []"
      using key [of k c] by (cases "f (k, c)") (auto simp: List.map_filter_def)
    moreover have "filter (\<lambda>r. g r = t) (List.map_filter f d) =
        (case f (t, v) of None \<Rightarrow> [] | Some r \<Rightarrow> [r])"
      using Cons False kv by simp
    ultimately show ?thesis
      using kv by (cases "f (k, c)") (auto simp: List.map_filter_def)
  qed
qed

lemma rules_of_subsection:
  assumes m: "map_of (split_into_subsections content) t = Some v"
  shows "filter (\<lambda>r. r_subsection r = Some t) (parse_section s content) =
     (case create_rule s (Some t) v (get_priority s) (get_scope s) (get_tags s) of
        None \<Rightarrow> [] | Some r \<Rightarrow> [r])"
proof -
  let ?d = "split_into_subsections content"
  let ?f = "\<lambda>(subsection_title, subsection_content).
     create_rule s (Some subsection_title) subsection_content
       (get_priority s) (get_scope s) (get_tags s)"
  have d: "distinct (map fst ?d)"
    by (simp add: split_into_subsections_def subsections_loop_heading_loop heading_loop_distinct)
  from m have ne: "?d \<noteq> []"
    by auto
  then have p: "parse_section s content = List.map_filter ?f ?d"
    by (simp add: parse_section_def Let_def)
  have key: "the (r_subsection r) = k" if "?f (k, c) = Some r" for k c r
    using that create_rule_subsection [of s "Some k" c _ _ _ r] by simp
  have some: "r_subsection r \<noteq> None" if "r \<in> set (List.map_filter ?f ?d)" for r
    using that create_rule_subsection [of s _ _ _ _ _ r]
    by (auto simp: List.map_filter_def split: option.splits)
  have "filter (\<lambda>r. r_subsection r = Some t) (List.map_filter ?f ?d) =
      filter (\<lambda>r. the (r_subsection r) = t) (List.map_filter ?f ?d)"
    using some by (intro filter_cong) auto
  also have "\<dots> = (case ?f (t, v) of None \<Rightarrow> [] | Some r \<Rightarrow> [r])"
    using key by (intro map_filter_single_key [OF _ d m]) blast
  finally show ?thesis
    using p by simp
qed

lemma in_set_map_filter: "r \<in> set (List.map_filter f d) \<longleftrightarrow> (\<exists>x \<in> set d. f x = Some r)"
  by (induction d) (auto simp: map_filter_simps split: option.splits)

lemma no_rule_of_empty_subsection:
  "filter (\<lambda>r. r_subsection r = Some []) (parse_section s content) = []"
proof -
  have "r_subsection r \<noteq> Some []" if "r \<in> set (parse_section s content)" for r
  proof (cases "split_into_subsections content = []")
    case True
    then show ?thesis
      using that create_rule_subsection [of s None content _ _ _ r]
      by (auto simp: parse_section_def Let_def split: option.splits)
  next
    case False
    then have "r \<in> set (List.map_filter
        (\<lambda>(k, c). create_rule s (Some k) c (get_priority s) (get_scope s) (get_tags s))
        (split_into_subsections content))"
      using that by (simp add: parse_section_def Let_def)
    then obtain k c where kc: "(k, c) \<in> set (split_into_subsections content)"
      and cr: "create_rule s (Some k) c (get_priority s) (get_scope s) (get_tags s) = Some r"
      unfolding in_set_map_filter by auto
    have "r_subsection r = Some k"
      using cr by (rule create_rule_subsection)
    moreover have "k \<noteq> []"
    proof
      assume "k = []"
      with kc have "([], c) \<in> set (split_into_subsections content)"
        by simp
      then have "fst ([], c) \<in> fst ` set (split_into_subsections content)"
        by (rule imageI)
      then show False
        using subsections_no_empty_title [of content] by simp
    qed
    ultimately show ?thesis
      by simp
  qed
  then show ?thesis
    by (auto simp: filter_empty_conv)
qed


lemma heading_loop_skip:
  "\<forall>l \<in> set body. \<not> H l \<Longrightarrow> \<not> truthy cur \<Longrightarrow>
   heading_loop H T (body @ rest) d cur content = heading_loop H T rest d cur content"
  by (induction body) simp_all

lemma heading_loop_empty_title:
  assumes h: "H h" "T h = []" and body: "\<forall>l \<in> set body. \<not> H l"
  shows "heading_loop H T (pre @ h # body @ rest) d cur content =
     heading_loop H T (pre @ h # rest) d cur content"
proof (induction pre arbitrary: d cur content)
  case Nil
  show ?case
    using h heading_loop_skip [OF body, of "Some []" T rest] by simp
next
  case (Cons l pre)
  then show ?case by simp
qed

text \<open>
  C10 (as amended). The sections, and the subsections of a section body, are kept in a
  dictionary keyed by the title of the header, so the titles of the entries are distinct.
  For a header whose title is not empty and that is the last header of its level with that
  title, the entry of the title is the body of that header (the lines up to the next header
  of the level, joined by line feeds); the rules of the document that carry the title as
  their section are exactly the rules of that body, so the body of an earlier section of
  the same title produces no rule. For subsections this holds within one section body: the
  rules of the section that carry the title as their subsection are the one rule of the
  body of the last header of that title, or none when that body has no prose. A header whose
  title is empty is not stored at all: the empty title is no key of either dictionary, no
  rule carries it as its section or as its subsection, and the lines below such a header,
  up to the next header of the level, are dropped.
\<close>

theorem last_heading_wins:
  "distinct (map fst (split_into_sections doc)) \<and>
   distinct (map fst (split_into_subsections content)) \<and>
   (split_char NL doc = pre @ h # body @ rest \<and>
    startswith ''## '' h \<and> section_title_of h \<noteq> [] \<and>
    (\<forall>l \<in> set body. \<not> startswith ''## '' l) \<and>
    (rest = [] \<or> startswith ''## '' (hd rest)) \<and>
    (\<forall>l \<in> set rest. startswith ''## '' l \<longrightarrow> section_title_of l \<noteq> section_title_of h)
    \<longrightarrow> map_of (split_into_sections doc) (section_title_of h) = Some (join [NL] body) \<and>
        filter (\<lambda>r. r_section r = section_title_of h) (parse doc) =
          parse_section (section_title_of h) (join [NL] body)) \<and>
   (split_char NL content = pre @ h # body @ rest \<and>
    startswith ''### '' h \<and> subsection_title_of h \<noteq> [] \<and>
    (\<forall>l \<in> set body. \<not> startswith ''### '' l) \<and>
    (rest = [] \<or> startswith ''### '' (hd rest)) \<and>
    (\<forall>l \<in> set rest. startswith ''### '' l \<longrightarrow> subsection_title_of l \<noteq> subsection_title_of h)
    \<longrightarrow> map_of (split_into_subsections content) (subsection_title_of h) = Some (join [NL] body) \<and>
        filter (\<lambda>r. r_subsection r = Some (subsection_title_of h)) (parse_section s content) =
          (case create_rule s (Some (subsection_title_of h)) (join [NL] body)
                  (get_priority s) (get_scope s) (get_tags s) of
             None \<Rightarrow> [] | Some r \<Rightarrow> [r])) \<and>
   [] \<notin> fst ` set (split_into_sections doc) \<and>
   [] \<notin> fst ` set (split_into_subsections content) \<and>
   filter (\<lambda>r. r_section r = []) (parse doc) = [] \<and>
   filter (\<lambda>r. r_subsection r = Some []) (parse_section s content) = [] \<and>
   (split_char NL doc = pre @ h # body @ rest \<and> split_char NL doc' = pre @ h # rest \<and>
    startswith ''## '' h \<and> section_title_of h = [] \<and>
    (\<forall>l \<in> set body. \<not> startswith ''## '' l)
    \<longrightarrow> split_into_sections doc = split_into_sections doc') \<and>
   (split_char NL content = pre @ h # body @ rest \<and> split_char NL content' = pre @ h # rest \<and>
    startswith ''### '' h \<and> subsection_title_of h = [] \<and>
    (\<forall>l \<in> set body. \<not> startswith ''### '' l)
    \<longrightarrow> split_into_subsections content = split_into_subsections content')"
proof -
  have d1: "distinct (map fst (split_into_sections doc))"
    by (simp add: split_into_sections_def sections_loop_heading_loop heading_loop_distinct)
  have d2: "distinct (map fst (split_into_subsections content))"
    by (simp add: split_into_subsections_def subsections_loop_heading_loop heading_loop_distinct)
  have s: "split_char NL doc = pre @ h # body @ rest \<and>
    startswith ''## '' h \<and> section_title_of h \<noteq> [] \<and>
    (\<forall>l \<in> set body. \<not> startswith ''## '' l) \<and>
    (rest = [] \<or> startswith ''## '' (hd rest)) \<and>
    (\<forall>l \<in> set rest. startswith ''## '' l \<longrightarrow> section_title_of l \<noteq> section_title_of h)
    \<longrightarrow> map_of (split_into_sections doc) (section_title_of h) = Some (join [NL] body) \<and>
        filter (\<lambda>r. r_section r = section_title_of h) (parse doc) =
          parse_section (section_title_of h) (join [NL] body)"
  proof
    assume a: "split_char NL doc = pre @ h # body @ rest \<and>
      startswith ''## '' h \<and> section_title_of h \<noteq> [] \<and>
      (\<forall>l \<in> set body. \<not> startswith ''## '' l) \<and>
      (rest = [] \<or> startswith ''## '' (hd rest)) \<and>
      (\<forall>l \<in> set rest. startswith ''## '' l \<longrightarrow> section_title_of l \<noteq> section_title_of h)"
    have m: "map_of (split_into_sections doc) (section_title_of h) = Some (join [NL] body)"
      unfolding split_into_sections_def sections_loop_heading_loop
      using a heading_loop_last [of "startswith ''## ''" h section_title_of "section_title_of h"
          body rest pre "[]" None "[]"]
      by simp
    with rules_of_title [OF d1 m]
    show "map_of (split_into_sections doc) (section_title_of h) = Some (join [NL] body) \<and>
        filter (\<lambda>r. r_section r = section_title_of h) (parse doc) =
          parse_section (section_title_of h) (join [NL] body)"
      by simp
  qed
  have u: "split_char NL content = pre @ h # body @ rest \<and>
    startswith ''### '' h \<and> subsection_title_of h \<noteq> [] \<and>
    (\<forall>l \<in> set body. \<not> startswith ''### '' l) \<and>
    (rest = [] \<or> startswith ''### '' (hd rest)) \<and>
    (\<forall>l \<in> set rest. startswith ''### '' l \<longrightarrow> subsection_title_of l \<noteq> subsection_title_of h)
    \<longrightarrow> map_of (split_into_subsections content) (subsection_title_of h) = Some (join [NL] body) \<and>
        filter (\<lambda>r. r_subsection r = Some (subsection_title_of h)) (parse_section s content) =
          (case create_rule s (Some (subsection_title_of h)) (join [NL] body)
                  (get_priority s) (get_scope s) (get_tags s) of
             None \<Rightarrow> [] | Some r \<Rightarrow> [r])"
  proof
    assume a: "split_char NL content = pre @ h # body @ rest \<and>
      startswith ''### '' h \<and> subsection_title_of h \<noteq> [] \<and>
      (\<forall>l \<in> set body. \<not> startswith ''### '' l) \<and>
      (rest = [] \<or> startswith ''### '' (hd rest)) \<and>
      (\<forall>l \<in> set rest. startswith ''### '' l \<longrightarrow> subsection_title_of l \<noteq> subsection_title_of h)"
    have m: "map_of (split_into_subsections content) (subsection_title_of h) = Some (join [NL] body)"
      unfolding split_into_subsections_def subsections_loop_heading_loop
      using a heading_loop_last [of "startswith ''### ''" h subsection_title_of
          "subsection_title_of h" body rest pre "[]" None "[]"]
      by simp
    with rules_of_subsection [OF m, of s]
    show "map_of (split_into_subsections content) (subsection_title_of h) = Some (join [NL] body) \<and>
        filter (\<lambda>r. r_subsection r = Some (subsection_title_of h)) (parse_section s content) =
          (case create_rule s (Some (subsection_title_of h)) (join [NL] body)
                  (get_priority s) (get_scope s) (get_tags s) of
             None \<Rightarrow> [] | Some r \<Rightarrow> [r])"
      by simp
  qed
  have e1: "split_char NL doc = pre @ h # body @ rest \<and> split_char NL doc' = pre @ h # rest \<and>
    startswith ''## '' h \<and> section_title_of h = [] \<and>
    (\<forall>l \<in> set body. \<not> startswith ''## '' l)
    \<longrightarrow> split_into_sections doc = split_into_sections doc'"
    unfolding split_into_sections_def sections_loop_heading_loop
    using heading_loop_empty_title [of "startswith ''## ''" h section_title_of body pre rest]
    by simp
  have e2: "split_char NL content = pre @ h # body @ rest \<and>
    split_char NL content' = pre @ h # rest \<and>
    startswith ''### '' h \<and> subsection_title_of h = [] \<and>
    (\<forall>l \<in> set body. \<not> startswith ''### '' l)
    \<longrightarrow> split_into_subsections content = split_into_subsections content'"
    unfolding split_into_subsections_def subsections_loop_heading_loop
    using heading_loop_empty_title [of "startswith ''### ''" h subsection_title_of body pre rest]
    by simp
  show ?thesis
    by (intro conjI d1 d2 s u sections_no_empty_title subsections_no_empty_title
        no_rule_of_empty_section no_rule_of_empty_subsection e1 e2)
qed

theorem last_heading_wins_witness:
  "map_of (split_into_sections
      (''## Style'' @ [NL] @ ''first'' @ [NL] @ ''## Other'' @ [NL] @ ''mid'' @ [NL] @
       ''## 2. Style'' @ [NL] @ ''last'')) ''Style'' = Some ''last'' \<and>
   filter (\<lambda>r. r_section r = ''Style'')
     (parse (''## Style'' @ [NL] @ ''first'' @ [NL] @ ''## Other'' @ [NL] @ ''mid'' @ [NL] @
       ''## 2. Style'' @ [NL] @ ''last'')) = parse_section ''Style'' ''last'' \<and>
   map_of (split_into_subsections
      (''### Naming'' @ [NL] @ ''old'' @ [NL] @ ''### 1.1 Naming'' @ [NL] @ ''new'')) ''Naming'' =
     Some ''new'' \<and>
   map r_content (filter (\<lambda>r. r_subsection r = Some ''Naming'')
     (parse_section ''Style''
        (''### Naming'' @ [NL] @ ''old'' @ [NL] @ ''### 1.1 Naming'' @ [NL] @ ''new''))) =
     [''new''] \<and>
   split_into_sections (''## 1.'' @ [NL] @ ''alpha'' @ [NL] @ ''## Style'' @ [NL] @ ''last'') =
     split_into_sections (''## 1.'' @ [NL] @ ''## Style'' @ [NL] @ ''last'') \<and>
   split_into_subsections (''### 1.1'' @ [NL] @ ''alpha'' @ [NL] @ ''### Naming'' @ [NL] @ ''new'') =
     split_into_subsections (''### 1.1'' @ [NL] @ ''### Naming'' @ [NL] @ ''new'')"
proof -
  let ?doc = "''## Style'' @ [NL] @ ''first'' @ [NL] @ ''## Other'' @ [NL] @ ''mid'' @ [NL] @
       ''## 2. Style'' @ [NL] @ ''last''"
  let ?pre = "[''## Style'', ''first'', ''## Other'', ''mid'']"
  let ?h = "''## 2. Style''"
  let ?body = "[''last'']"
  let ?rest = "[] :: string list"
  have h1: "split_char NL ?doc = ?pre @ ?h # ?body @ ?rest \<and>
    startswith ''## '' ?h \<and> section_title_of ?h \<noteq> [] \<and>
    (\<forall>l \<in> set ?body. \<not> startswith ''## '' l) \<and>
    (?rest = [] \<or> startswith ''## '' (hd ?rest)) \<and>
    (\<forall>l \<in> set ?rest. startswith ''## '' l \<longrightarrow> section_title_of l \<noteq> section_title_of ?h)"
    by code_simp
  have t1: "section_title_of ?h = ''Style''" "join [NL] ?body = ''last''"
    by code_simp+
  have "map_of (split_into_sections ?doc) (section_title_of ?h) = Some (join [NL] ?body) \<and>
        filter (\<lambda>r. r_section r = section_title_of ?h) (parse ?doc) =
          parse_section (section_title_of ?h) (join [NL] ?body)"
    using last_heading_wins [THEN conjunct2, THEN conjunct2, THEN conjunct1, THEN mp, OF h1] .
  then have f1: "map_of (split_into_sections ?doc) ''Style'' = Some ''last''"
    and f2: "filter (\<lambda>r. r_section r = ''Style'') (parse ?doc) = parse_section ''Style'' ''last''"
    unfolding t1 by blast+
  let ?doc2 = "''### Naming'' @ [NL] @ ''old'' @ [NL] @ ''### 1.1 Naming'' @ [NL] @ ''new''"
  let ?pre2 = "[''### Naming'', ''old'']"
  let ?h2 = "''### 1.1 Naming''"
  let ?body2 = "[''new'']"
  have h2: "split_char NL ?doc2 = ?pre2 @ ?h2 # ?body2 @ ?rest \<and>
    startswith ''### '' ?h2 \<and> subsection_title_of ?h2 \<noteq> [] \<and>
    (\<forall>l \<in> set ?body2. \<not> startswith ''### '' l) \<and>
    (?rest = [] \<or> startswith ''### '' (hd ?rest)) \<and>
    (\<forall>l \<in> set ?rest. startswith ''### '' l \<longrightarrow> subsection_title_of l \<noteq> subsection_title_of ?h2)"
    by code_simp
  have t2: "subsection_title_of ?h2 = ''Naming''" "join [NL] ?body2 = ''new''"
    by code_simp+
  have "map_of (split_into_subsections ?doc2) (subsection_title_of ?h2) = Some (join [NL] ?body2) \<and>
        filter (\<lambda>r. r_subsection r = Some (subsection_title_of ?h2)) (parse_section ''Style'' ?doc2) =
          (case create_rule ''Style'' (Some (subsection_title_of ?h2)) (join [NL] ?body2)
                  (get_priority ''Style'') (get_scope ''Style'') (get_tags ''Style'') of
             None \<Rightarrow> [] | Some r \<Rightarrow> [r])"
    using last_heading_wins [THEN conjunct2, THEN conjunct2, THEN conjunct2, THEN conjunct1,
        THEN mp, OF h2] .
  then have f3: "map_of (split_into_subsections ?doc2) ''Naming'' = Some ''new''"
    and g: "filter (\<lambda>r. r_subsection r = Some ''Naming'') (parse_section ''Style'' ?doc2) =
          (case create_rule ''Style'' (Some ''Naming'') ''new''
                  (get_priority ''Style'') (get_scope ''Style'') (get_tags ''Style'') of
             None \<Rightarrow> [] | Some r \<Rightarrow> [r])"
    unfolding t2 by blast+
  have "map r_content (case create_rule ''Style'' (Some ''Naming'') ''new''
                  (get_priority ''Style'') (get_scope ''Style'') (get_tags ''Style'') of
             None \<Rightarrow> [] | Some r \<Rightarrow> [r]) = [''new'']"
    by code_simp
  then have f4: "map r_content (filter (\<lambda>r. r_subsection r = Some ''Naming'')
      (parse_section ''Style'' ?doc2)) = [''new'']"
    unfolding g .
  let ?doc3 = "''## 1.'' @ [NL] @ ''alpha'' @ [NL] @ ''## Style'' @ [NL] @ ''last''"
  let ?doc3' = "''## 1.'' @ [NL] @ ''## Style'' @ [NL] @ ''last''"
  have h5: "split_char NL ?doc3 = [] @ ''## 1.'' # [''alpha''] @ [''## Style'', ''last''] \<and>
    split_char NL ?doc3' = [] @ ''## 1.'' # [''## Style'', ''last''] \<and>
    startswith ''## '' ''## 1.'' \<and> section_title_of ''## 1.'' = [] \<and>
    (\<forall>l \<in> set [''alpha'']. \<not> startswith ''## '' l)"
    by code_simp
  have f5: "split_into_sections ?doc3 = split_into_sections ?doc3'"
    using last_heading_wins [THEN conjunct2, THEN conjunct2, THEN conjunct2, THEN conjunct2,
        THEN conjunct2, THEN conjunct2, THEN conjunct2, THEN conjunct2, THEN conjunct1,
        THEN mp, OF h5] .
  let ?doc4 = "''### 1.1'' @ [NL] @ ''alpha'' @ [NL] @ ''### Naming'' @ [NL] @ ''new''"
  let ?doc4' = "''### 1.1'' @ [NL] @ ''### Naming'' @ [NL] @ ''new''"
  have h6: "split_char NL ?doc4 = [] @ ''### 1.1'' # [''alpha''] @ [''### Naming'', ''new''] \<and>
    split_char NL ?doc4' = [] @ ''### 1.1'' # [''### Naming'', ''new''] \<and>
    startswith ''### '' ''### 1.1'' \<and> subsection_title_of ''### 1.1'' = [] \<and>
    (\<forall>l \<in> set [''alpha'']. \<not> startswith ''### '' l)"
    by code_simp
  have f6: "split_into_subsections ?doc4 = split_into_subsections ?doc4'"
    using last_heading_wins [THEN conjunct2, THEN conjunct2, THEN conjunct2, THEN conjunct2,
        THEN conjunct2, THEN conjunct2, THEN conjunct2, THEN conjunct2, THEN conjunct2,
        THEN mp, OF h6] .
  show ?thesis
    by (intro conjI f1 f2 f3 f4 f5 f6)
qed

text \<open>
  The claim as it was stated fails for headers whose title is empty: two headers that hold
  a number only have the same (empty) title, and no body is kept for either.
\<close>

theorem last_heading_wins_counterexample:
  "section_title_of ''## 1.'' = section_title_of ''## 2.'' \<and>
   split_into_sections (''## 1.'' @ [NL] @ ''alpha'' @ [NL] @ ''## 2.'' @ [NL] @ ''beta'') = [] \<and>
   parse (''## 1.'' @ [NL] @ ''alpha'' @ [NL] @ ''## 2.'' @ [NL] @ ''beta'') = []"
  by code_simp

section \<open>The merged file map\<close>

lemma map_of_dict_update: "map_of (dict_update d files) = map_of d ++ map_of (rev files)"
  unfolding dict_update_def
proof (induction files arbitrary: d)
  case Nil
  then show ?case by simp
next
  case (Cons kv files)
  obtain k v where kv: "kv = (k, v)" by (cases kv)
  have "map_of (foldl (\<lambda>d (k, v). dict_set d k v) (dict_set d k v) files) =
      map_of (dict_set d k v) ++ map_of (rev files)"
    by (rule Cons)
  also have "map_of (dict_set d k v) = (map_of d)(k \<mapsto> v)"
    by (rule map_of_dict_set)
  finally have "map_of (foldl (\<lambda>d (k, v). dict_set d k v) d (kv # files)) =
      (map_of d)(k \<mapsto> v) ++ map_of (rev files)"
    by (simp only: kv foldl_Cons prod.case)
  also have "\<dots> = map_of d ++ map_of (rev (kv # files))"
    by (simp add: kv)
  finally show ?case .
qed

lemma map_of_rev_distinct: "distinct (map fst xs) \<Longrightarrow> map_of (rev xs) = map_of xs"
proof (induction xs)
  case Nil
  then show ?case by simp
next
  case (Cons kv xs)
  obtain k v where kv: "kv = (k, v)" by (cases kv)
  have "k \<notin> dom (map_of xs)"
    using Cons.prems kv by (simp add: dom_map_of_conv_image_fst)
  then have "[k \<mapsto> v] ++ map_of xs = (map_of xs)(k \<mapsto> v)"
    by (auto simp: map_add_def fun_eq_iff split: option.splits)
  then show ?case
    using Cons kv by simp
qed

lemma distinct_dict_update:
  "distinct (map fst d) \<Longrightarrow> distinct (map fst (dict_update d files))"
  unfolding dict_update_def
  by (induction files arbitrary: d) (auto simp: distinct_dict_set)

text \<open>
  C4. When the four transformers of the roster (Cursor, Claude, GitHub Copilot, Aider, in
  this order) return their file maps, step 2 of \<open>sync\<close> returns the merged file map: a
  dictionary that maps every path to the content given by the last transformer of the
  roster that emits the path. So a path that two transformers emit has the content of the
  later one, and a path that one transformer emits has the content that transformer gave.
\<close>

theorem merge_later_wins:
  "cursor rules = Inr fc \<and> claude rules = Inr fl \<and> copilot rules = Inr fg \<and> aider rules = Inr fa \<and>
   distinct (map fst fc) \<and> distinct (map fst fl) \<and> distinct (map fst fg) \<and> distinct (map fst fa)
   \<longrightarrow>
   (\<exists>m. transform_all (transformers cursor claude copilot aider) rules [] = Inr m \<and>
      distinct (map fst m) \<and>
      map_of m = map_of fc ++ map_of fl ++ map_of fg ++ map_of fa \<and>
      (\<forall>p. (p \<in> fst ` set fa \<longrightarrow> map_of m p = map_of fa p) \<and>
           (p \<notin> fst ` set fa \<and> p \<in> fst ` set fg \<longrightarrow> map_of m p = map_of fg p) \<and>
           (p \<notin> fst ` set fa \<and> p \<notin> fst ` set fg \<and> p \<in> fst ` set fl
              \<longrightarrow> map_of m p = map_of fl p) \<and>
           (p \<notin> fst ` set fa \<and> p \<notin> fst ` set fg \<and> p \<notin> fst ` set fl
              \<longrightarrow> map_of m p = map_of fc p)))"
proof
  assume a: "cursor rules = Inr fc \<and> claude rules = Inr fl \<and> copilot rules = Inr fg \<and>
    aider rules = Inr fa \<and>
    distinct (map fst fc) \<and> distinct (map fst fl) \<and> distinct (map fst fg) \<and> distinct (map fst fa)"
  let ?m = "dict_update (dict_update (dict_update (dict_update [] fc) fl) fg) fa"
  have r: "transform_all (transformers cursor claude copilot aider) rules [] = Inr ?m"
    using a by (simp add: transformers_def)
  have d: "distinct (map fst ?m)"
    by (intro distinct_dict_update) simp
  have m: "map_of ?m = map_of fc ++ map_of fl ++ map_of fg ++ map_of fa"
    using a by (simp add: map_of_dict_update map_of_rev_distinct)
  have dom: "p \<in> fst ` set f \<longleftrightarrow> map_of f p \<noteq> None" for p and f :: file_map
    by (simp add: map_of_eq_None_iff)
  have "(p \<in> fst ` set fa \<longrightarrow> map_of ?m p = map_of fa p) \<and>
           (p \<notin> fst ` set fa \<and> p \<in> fst ` set fg \<longrightarrow> map_of ?m p = map_of fg p) \<and>
           (p \<notin> fst ` set fa \<and> p \<notin> fst ` set fg \<and> p \<in> fst ` set fl
              \<longrightarrow> map_of ?m p = map_of fl p) \<and>
           (p \<notin> fst ` set fa \<and> p \<notin> fst ` set fg \<and> p \<notin> fst ` set fl
              \<longrightarrow> map_of ?m p = map_of fc p)" for p
    unfolding m dom by (auto simp: map_add_def split: option.splits)
  with r d m show "\<exists>m. transform_all (transformers cursor claude copilot aider) rules [] = Inr m \<and>
      distinct (map fst m) \<and>
      map_of m = map_of fc ++ map_of fl ++ map_of fg ++ map_of fa \<and>
      (\<forall>p. (p \<in> fst ` set fa \<longrightarrow> map_of m p = map_of fa p) \<and>
           (p \<notin> fst ` set fa \<and> p \<in> fst ` set fg \<longrightarrow> map_of m p = map_of fg p) \<and>
           (p \<notin> fst ` set fa \<and> p \<notin> fst ` set fg \<and> p \<in> fst ` set fl
              \<longrightarrow> map_of m p = map_of fl p) \<and>
           (p \<notin> fst ` set fa \<and> p \<notin> fst ` set fg \<and> p \<notin> fst ` set fl
              \<longrightarrow> map_of m p = map_of fc p))"
    by blast
qed

theorem merge_later_wins_witness:
  "\<exists>m. transform_all
        (transformers
          (\<lambda>rules. Inr [(''.cursor/rules/006_security.mdc'', ''cursor''),
                         (''.cursor/rules/001_workspace.mdc'', ''workspace'')])
          (\<lambda>rules. Inr [(''CLAUDE.md'', ''narrative''),
                         (''.cursor/rules/006_security.mdc'', ''claude'')])
          (\<lambda>rules. Inr [(''.github/copilot-instructions.md'', ''concise'')])
          (\<lambda>rules. Inr [(''.aider/.aider.conf.yml'', ''comments'')]))
        [] [] = Inr m \<and>
      map_of m ''.cursor/rules/006_security.mdc'' = Some ''claude'' \<and>
      map_of m ''.cursor/rules/001_workspace.mdc'' = Some ''workspace'' \<and>
      map_of m ''.aider/.aider.conf.yml'' = Some ''comments''"
proof -
  let ?fc = "[(''.cursor/rules/006_security.mdc'', ''cursor''),
              (''.cursor/rules/001_workspace.mdc'', ''workspace'')]"
  let ?fl = "[(''CLAUDE.md'', ''narrative''), (''.cursor/rules/006_security.mdc'', ''claude'')]"
  let ?fg = "[(''.github/copilot-instructions.md'', ''concise'')]"
  let ?fa = "[(''.aider/.aider.conf.yml'', ''comments'')]"
  let ?cursor = "(\<lambda>rules. Inr ?fc) :: transformer"
  let ?claude = "(\<lambda>rules. Inr ?fl) :: transformer"
  let ?copilot = "(\<lambda>rules. Inr ?fg) :: transformer"
  let ?aider = "(\<lambda>rules. Inr ?fa) :: transformer"
  have d: "distinct (map fst ?fc) \<and> distinct (map fst ?fl) \<and> distinct (map fst ?fg) \<and>
      distinct (map fst ?fa)"
    by code_simp
  have h: "?cursor [] = Inr ?fc \<and> ?claude [] = Inr ?fl \<and> ?copilot [] = Inr ?fg \<and>
      ?aider [] = Inr ?fa \<and>
      distinct (map fst ?fc) \<and> distinct (map fst ?fl) \<and> distinct (map fst ?fg) \<and>
      distinct (map fst ?fa)"
    using d by simp
  from merge_later_wins [of ?cursor "[]" ?fc ?claude ?fl ?copilot ?fg ?aider ?fa, THEN mp, OF h]
  obtain m where r: "transform_all (transformers ?cursor ?claude ?copilot ?aider) [] [] = Inr m"
    and w: "\<And>p. (p \<in> fst ` set ?fa \<longrightarrow> map_of m p = map_of ?fa p) \<and>
           (p \<notin> fst ` set ?fa \<and> p \<in> fst ` set ?fg \<longrightarrow> map_of m p = map_of ?fg p) \<and>
           (p \<notin> fst ` set ?fa \<and> p \<notin> fst ` set ?fg \<and> p \<in> fst ` set ?fl
              \<longrightarrow> map_of m p = map_of ?fl p) \<and>
           (p \<notin> fst ` set ?fa \<and> p \<notin> fst ` set ?fg \<and> p \<notin> fst ` set ?fl
              \<longrightarrow> map_of m p = map_of ?fc p)"
    by blast
  let ?p1 = "''.cursor/rules/006_security.mdc''"
  have "?p1 \<notin> fst ` set ?fa \<and> ?p1 \<notin> fst ` set ?fg \<and> ?p1 \<in> fst ` set ?fl"
    by code_simp
  from w [of ?p1, THEN conjunct2, THEN conjunct2, THEN conjunct1, THEN mp, OF this]
  have "map_of m ?p1 = map_of ?fl ?p1" .
  moreover have "map_of ?fl ?p1 = Some ''claude''"
    by code_simp
  ultimately have f1: "map_of m ?p1 = Some ''claude''"
    by simp
  let ?p2 = "''.cursor/rules/001_workspace.mdc''"
  have "?p2 \<notin> fst ` set ?fa \<and> ?p2 \<notin> fst ` set ?fg \<and> ?p2 \<notin> fst ` set ?fl"
    by code_simp
  from w [of ?p2, THEN conjunct2, THEN conjunct2, THEN conjunct2, THEN mp, OF this]
  have "map_of m ?p2 = map_of ?fc ?p2" .
  moreover have "map_of ?fc ?p2 = Some ''workspace''"
    by code_simp
  ultimately have f2: "map_of m ?p2 = Some ''workspace''"
    by simp
  let ?p3 = "''.aider/.aider.conf.yml''"
  have "?p3 \<in> fst ` set ?fa"
    by code_simp
  from w [of ?p3, THEN conjunct1, THEN mp, OF this]
  have "map_of m ?p3 = map_of ?fa ?p3" .
  moreover have "map_of ?fa ?p3 = Some ''comments''"
    by code_simp
  ultimately have f3: "map_of m ?p3 = Some ''comments''"
    by simp
  from r f1 f2 f3 show ?thesis
    by (intro exI [of _ m] conjI)
qed

section \<open>Errors of the validator\<close>

lemma errors_add_warning: "errors (add_warning v m) = errors v"
  by (simp add: add_warning_def)

lemma errors_add_error: "errors (add_error v m) = errors v @ [m]"
  by (simp add: add_error_def)

lemma errors_foldl_warning: "errors (foldl (\<lambda>v x. add_warning v (f x)) v xs) = errors v"
  by (induction xs arbitrary: v) (simp_all add: errors_add_warning)

lemma errors_validate_markdown:
  "errors (validate_markdown v p c) =
   errors v @ (if odd (count_fences c) then [Unclosed_code_fence p] else [])"
proof -
  have "errors (foldl (\<lambda>v (a, b). add_warning v (Heading_hierarchy_skip p a b)) w xs) = errors w"
    for w xs
    using errors_foldl_warning [of "\<lambda>(a, b). Heading_hierarchy_skip p a b" w xs]
    by (simp add: case_prod_unfold)
  then show ?thesis
    by (simp add: validate_markdown_def Let_def errors_add_error odd_iff_mod_2_eq_one)
qed

lemma errors_validate_common: "errors (validate_common v p c) = errors v"
proof -
  have a: "errors (foldl (\<lambda>v i. add_warning v (Trailing_whitespace p i)) w xs) = errors w" for w xs
    by (rule errors_foldl_warning)
  have b: "errors (foldl (\<lambda>v (i, n). add_warning v (Line_too_long p i n)) w xs) = errors w"
    for w xs
    using errors_foldl_warning [of "\<lambda>(i, n). Line_too_long p i n" w xs]
    by (simp add: case_prod_unfold)
  show ?thesis
    by (simp add: validate_common_def Let_def a b errors_add_warning)
qed

lemma errors_validate_yaml: "\<exists>es. errors (validate_yaml load v p c) = errors v @ es"
  by (cases "load c") (simp_all add: validate_yaml_def errors_add_error)

lemma errors_validate_mdc:
  assumes "validate_mdc load v p c = Inr v'"
  shows "\<exists>es. errors v' = errors v @ es \<and> (mdc_flagged c \<longrightarrow> es \<noteq> [])"
proof (cases "\<not> startswith ''---'' c \<or> length (split_max ''---'' 2 c) < 3")
  case True
  then have "errors v' = errors v @ [Missing_YAML_frontmatter p] \<or>
      errors v' = errors v @ [Invalid_frontmatter_structure p]"
    using assms by (auto simp: validate_mdc_def Let_def errors_add_error split: if_splits)
  moreover have "mdc_flagged c"
    using True by (auto simp: mdc_flagged_def)
  ultimately show ?thesis by auto
next
  case False
  let ?body = "split_max ''---'' 2 c ! 2"
  let ?fence = "if odd (count_fences ?body) then [Unclosed_code_fence p] else []"
  have flagged: "mdc_flagged c \<longleftrightarrow> odd (count_fences ?body)"
    using False by (auto simp: mdc_flagged_def)
  show ?thesis
  proof (cases "load (split_max ''---'' 2 c ! 1)")
    case (Inl e)
    then have "errors v' = errors v @ (Invalid_frontmatter_YAML p e # ?fence)"
      using assms False
      by (auto simp: validate_mdc_def Let_def errors_validate_markdown errors_add_error)
    then show ?thesis by blast
  next
    case (Inr metadata)
    then have "errors v' = errors v @ ?fence"
      using assms False
      by (auto simp: validate_mdc_def Let_def errors_validate_markdown errors_add_warning
          split: sum.splits)
    then show ?thesis using flagged by auto
  qed
qed

lemma suffix_distinct:
  "''.md'' \<noteq> ''.yaml''" "''.md'' \<noteq> ''.yml''" "''.md'' \<noteq> ''.mdc''"
  "''.mdc'' \<noteq> ''.yaml''" "''.mdc'' \<noteq> ''.yml''"
  by simp_all

lemma errors_validate_file:
  assumes "validate_file load v p c = Inr v'"
  shows "\<exists>es. errors v' = errors v @ es \<and> (file_flagged p c \<longrightarrow> es \<noteq> [])"
proof -
  consider (yaml) "suffix_of p = ''.yaml'' \<or> suffix_of p = ''.yml''"
    | (mdc) "suffix_of p = ''.mdc''"
    | (md) "suffix_of p = ''.md''"
    | (other) "suffix_of p \<noteq> ''.yaml''" "suffix_of p \<noteq> ''.yml''" "suffix_of p \<noteq> ''.mdc''"
        "suffix_of p \<noteq> ''.md''"
    by blast
  then show ?thesis
  proof cases
    case yaml
    then have nf: "\<not> file_flagged p c"
      by (auto simp: file_flagged_def)
    from yaml assms have "v' = validate_common (validate_yaml load v p c) p c"
      by (auto simp: validate_file_def)
    then show ?thesis
      using errors_validate_yaml [of load v p c] nf by (auto simp: errors_validate_common)
  next
    case mdc
    then obtain w where w: "validate_mdc load v p c = Inr w" and v': "v' = validate_common w p c"
      using assms by (auto simp: validate_file_def split: sum.splits)
    have "file_flagged p c \<longleftrightarrow> mdc_flagged c"
      using mdc by (auto simp: file_flagged_def)
    then show ?thesis
      using errors_validate_mdc [OF w] v' by (simp add: errors_validate_common)
  next
    case md
    then have "v' = validate_common (validate_markdown v p c) p c"
      using assms by (auto simp: validate_file_def)
    moreover have "file_flagged p c \<longleftrightarrow> odd (count_fences c)"
      using md by (auto simp: file_flagged_def)
    ultimately show ?thesis
      by (simp add: errors_validate_common errors_validate_markdown)
  next
    case other
    then have "v' = validate_common v p c" "\<not> file_flagged p c"
      using assms by (auto simp: validate_file_def file_flagged_def)
    then show ?thesis
      by (simp add: errors_validate_common)
  qed
qed

lemma errors_validate_all_loop:
  "validate_all_loop load files v = Inr v' \<Longrightarrow>
   \<exists>es. errors v' = errors v @ es \<and> ((\<exists>(p, c) \<in> set files. file_flagged p c) \<longrightarrow> es \<noteq> [])"
proof (induction files arbitrary: v)
  case Nil
  then show ?case by simp
next
  case (Cons pc files)
  obtain p c where pc: "pc = (p, c)" by (cases pc)
  from Cons.prems pc obtain w where w: "validate_file load v p c = Inr w"
    and r: "validate_all_loop load files w = Inr v'"
    by (auto split: sum.splits)
  from errors_validate_file [OF w] obtain es1 where
    e1: "errors w = errors v @ es1" "file_flagged p c \<longrightarrow> es1 \<noteq> []"
    by blast
  from Cons.IH [OF r] obtain es2 where
    e2: "errors v' = errors w @ es2" "(\<exists>(p, c) \<in> set files. file_flagged p c) \<longrightarrow> es2 \<noteq> []"
    by blast
  have "errors v' = errors v @ (es1 @ es2)"
    using e1 e2 by simp
  moreover have "(\<exists>(p, c) \<in> set (pc # files). file_flagged p c) \<longrightarrow> es1 @ es2 \<noteq> []"
    using e1 e2 pc by auto
  ultimately show ?case by blast
qed

text \<open>
  C2 (as amended). When \<open>validate_all\<close> returns, its result is true exactly when the error
  list is empty, however many warnings there are. It returns false, with an error list that
  is not empty, when the file map holds a Markdown file (suffix \<open>.md\<close>) whose content has an
  odd number of fences, or a hybrid file (suffix \<open>.mdc\<close>) that does not start with the
  delimiter, has fewer than two delimiters, or whose body after the second delimiter has an
  odd number of fences. Nothing is said of the calls that raise (see C3).
\<close>

theorem odd_fences_block:
  "validate_all safe_load files = Inr (ok, v) \<longrightarrow>
     (ok \<longleftrightarrow> errors v = []) \<and>
     ((\<exists>(p, c) \<in> set files. suffix_of p = ''.md'' \<and> odd (count_fences c))
        \<longrightarrow> \<not> ok \<and> errors v \<noteq> []) \<and>
     ((\<exists>(p, c) \<in> set files. suffix_of p = ''.mdc'' \<and>
          (\<not> startswith ''---'' c \<or> length (split_max ''---'' 2 c) < 3 \<or>
           odd (count_fences (split_max ''---'' 2 c ! 2))))
        \<longrightarrow> \<not> ok \<and> errors v \<noteq> [])"
proof
  assume a: "validate_all safe_load files = Inr (ok, v)"
  then have l: "validate_all_loop safe_load files \<lparr>errors = [], warnings = []\<rparr> = Inr v"
    and ok: "ok \<longleftrightarrow> errors v = []"
    by (auto simp: validate_all_def split: sum.splits)
  from errors_validate_all_loop [OF l] have
    f: "(\<exists>(p, c) \<in> set files. file_flagged p c) \<longrightarrow> errors v \<noteq> []"
    by auto
  have "(\<exists>(p, c) \<in> set files. suffix_of p = ''.md'' \<and> odd (count_fences c)) \<longrightarrow> errors v \<noteq> []"
    using f by (auto simp: file_flagged_def)
  moreover have "(\<exists>(p, c) \<in> set files. suffix_of p = ''.mdc'' \<and>
          (\<not> startswith ''---'' c \<or> length (split_max ''---'' 2 c) < 3 \<or>
           odd (count_fences (split_max ''---'' 2 c ! 2)))) \<longrightarrow> errors v \<noteq> []"
    using f unfolding file_flagged_def mdc_flagged_def by blast
  ultimately show "(ok \<longleftrightarrow> errors v = []) \<and>
     ((\<exists>(p, c) \<in> set files. suffix_of p = ''.md'' \<and> odd (count_fences c))
        \<longrightarrow> \<not> ok \<and> errors v \<noteq> []) \<and>
     ((\<exists>(p, c) \<in> set files. suffix_of p = ''.mdc'' \<and>
          (\<not> startswith ''---'' c \<or> length (split_max ''---'' 2 c) < 3 \<or>
           odd (count_fences (split_max ''---'' 2 c ! 2))))
        \<longrightarrow> \<not> ok \<and> errors v \<noteq> [])"
    using ok by blast
qed

theorem odd_fences_block_witness:
  "(\<exists>v. validate_all yaml_sample [(''docs/notes.md'', ''text'' @ FENCE)] = Inr (False, v) \<and>
        errors v \<noteq> []) \<and>
   (\<exists>v. validate_all yaml_sample
          [(''rules.mdc'', ''---'' @ frontmatter_with_fence @ ''---'' @ [NL] @ FENCE @ [NL])] =
          Inr (False, v) \<and> errors v \<noteq> []) \<and>
   (\<exists>v. validate_all yaml_sample [(''docs/notes.md'', ''# Title '' @ [NL] @ ''### Deep'')] =
          Inr (True, v) \<and> errors v = [] \<and> length (warnings v) = 3)"
proof -
  let ?f1 = "[(''docs/notes.md'', ''text'' @ FENCE)]"
  let ?v1 = "\<lparr>errors = [Unclosed_code_fence ''docs/notes.md''],
             warnings = [Missing_final_newline ''docs/notes.md'']\<rparr>"
  have r1: "validate_all yaml_sample ?f1 = Inr (False, ?v1)"
    by code_simp
  have h1: "\<exists>(p, c) \<in> set ?f1. suffix_of p = ''.md'' \<and> odd (count_fences c)"
    by code_simp
  have "\<not> False \<and> errors ?v1 \<noteq> []"
    using odd_fences_block [THEN mp, OF r1, THEN conjunct2, THEN conjunct1, THEN mp, OF h1] .
  with r1 have w1: "\<exists>v. validate_all yaml_sample ?f1 = Inr (False, v) \<and> errors v \<noteq> []"
    by blast
  let ?f2 = "[(''rules.mdc'', ''---'' @ frontmatter_with_fence @ ''---'' @ [NL] @ FENCE @ [NL])]"
  let ?v2 = "\<lparr>errors = [Unclosed_code_fence ''rules.mdc''], warnings = []\<rparr>"
  have r2: "validate_all yaml_sample ?f2 = Inr (False, ?v2)"
    by code_simp
  have h2: "\<exists>(p, c) \<in> set ?f2. suffix_of p = ''.mdc'' \<and>
          (\<not> startswith ''---'' c \<or> length (split_max ''---'' 2 c) < 3 \<or>
           odd (count_fences (split_max ''---'' 2 c ! 2)))"
    by code_simp
  have "\<not> False \<and> errors ?v2 \<noteq> []"
    using odd_fences_block [THEN mp, OF r2, THEN conjunct2, THEN conjunct2, THEN mp, OF h2] .
  with r2 have w2: "\<exists>v. validate_all yaml_sample ?f2 = Inr (False, v) \<and> errors v \<noteq> []"
    by blast
  let ?f3 = "[(''docs/notes.md'', ''# Title '' @ [NL] @ ''### Deep'')]"
  let ?v3 = "\<lparr>errors = [],
             warnings = [Heading_hierarchy_skip ''docs/notes.md'' 1 3,
                         Trailing_whitespace ''docs/notes.md'' 1,
                         Missing_final_newline ''docs/notes.md'']\<rparr>"
  have r3: "validate_all yaml_sample ?f3 = Inr (True, ?v3)"
    by code_simp
  have "True \<longleftrightarrow> errors ?v3 = []"
    using odd_fences_block [THEN mp, OF r3, THEN conjunct1] .
  then have "errors ?v3 = [] \<and> length (warnings ?v3) = 3"
    by simp
  with r3 have w3: "\<exists>v. validate_all yaml_sample ?f3 = Inr (True, v) \<and> errors v = [] \<and>
      length (warnings v) = 3"
    by blast
  show ?thesis
    by (intro conjI w1 w2 w3)
qed

text \<open>
  The claim as it was stated fails: a hybrid file whose only fence stands in a quoted value
  of its frontmatter has an odd number of fences and validates without an error; and a file
  map with a Markdown file of one fence does not make \<open>validate_all\<close> return false when the
  call raises on a file before it.
\<close>

theorem odd_fences_block_counterexample:
  "suffix_of ''rules.mdc'' = ''.mdc'' \<and>
   odd (count_fences (''---'' @ frontmatter_with_fence @ ''---'' @ [NL] @ ''body'' @ [NL])) \<and>
   validate_all yaml_sample
     [(''rules.mdc'', ''---'' @ frontmatter_with_fence @ ''---'' @ [NL] @ ''body'' @ [NL])] =
     Inr (True, \<lparr>errors = [], warnings = []\<rparr>) \<and>
   suffix_of ''notes.md'' = ''.md'' \<and> odd (count_fences (''text'' @ FENCE)) \<and>
   validate_all yaml_sample
     [(''rules.mdc'', ''---'' @ [NL] @ ''---'' @ [NL] @ ''body'' @ [NL]),
      (''notes.md'', ''text'' @ FENCE)] = Inl TypeError"
  by code_simp

text \<open>
  C3. The claim does not hold on the code: for a hybrid file with an empty frontmatter
  block the loader returns \<open>None\<close>, the test \<open>"priority" not in metadata\<close> raises
  \<open>TypeError\<close>, which the \<open>except yaml.YAMLError\<close> clause does not catch, and
  \<open>validate_all\<close> raises instead of returning with two warnings.
\<close>

theorem validate_all_raises:
  "validate_all yaml_sample [(''rules.mdc'', ''---'' @ [NL] @ ''---'' @ [NL] @ ''body'' @ [NL])] =
     Inl TypeError"
  by code_simp

section \<open>The imperative style\<close>

text \<open>
  The passes of \<open>_make_imperative\<close> are compared with one pass over the tokens of the
  text. First the facts about tokens, then the pass of \<open>replace_words\<close> read on tokens,
  then the merging of a pass into the pass of the table before it.
\<close>

lemma isword_lower_char: "isword (lower_char c) = isword c"
  by (auto simp: char_class_defs)

lemma fresh_simps: "fresh []" "fresh (c # cs) \<longleftrightarrow> \<not> isword c"
  by (simp_all add: fresh_def)

lemma fresh_dropWhile: "fresh (dropWhile isword s)"
  by (induction s) (simp_all add: fresh_simps)

lemma takeWhile_fresh: "fresh s \<Longrightarrow> takeWhile isword s = []"
  by (cases s) (simp_all add: fresh_simps)

lemma dropWhile_fresh: "fresh s \<Longrightarrow> dropWhile isword s = s"
  by (cases s) (simp_all add: fresh_simps)

lemma concat_tokens: "concat (tokens s) = s"
  by (induction s rule: tokens.induct) simp_all

lemma all_word_runs:
  "\<forall>c \<in> set w. isword c \<Longrightarrow> takeWhile isword w = w \<and> dropWhile isword w = []"
  by simp

lemma tokens_word: "w \<noteq> [] \<Longrightarrow> \<forall>c \<in> set w. isword c \<Longrightarrow> tokens w = [w]"
  by (cases w) (simp_all add: all_word_runs)

lemma tokens_lower: "tokens (lower s) = map lower (tokens s)"
proof (induction s rule: tokens.induct)
  case 1
  then show ?case by (simp add: lower_def)
next
  case (2 c cs)
  have tw: "takeWhile isword (map lower_char cs) = map lower_char (takeWhile isword cs)"
    by (simp add: takeWhile_map comp_def isword_lower_char)
  have dw: "dropWhile isword (map lower_char cs) = map lower_char (dropWhile isword cs)"
    by (simp add: dropWhile_map comp_def isword_lower_char)
  show ?case
    using 2 by (simp add: lower_def isword_lower_char tw dw)
qed

lemma tokens_append_fresh: "fresh v \<Longrightarrow> tokens (u @ v) = tokens u @ tokens v"
proof (induction u rule: tokens.induct)
  case 1
  then show ?case by simp
next
  case (2 c cs)
  show ?case
  proof (cases "isword c")
    case True
    show ?thesis
    proof (cases "\<forall>x \<in> set cs. isword x")
      case all: True
      then have "takeWhile isword (cs @ v) = cs" "dropWhile isword (cs @ v) = v"
        using 2(3) by (simp_all add: takeWhile_fresh dropWhile_fresh)
      then have e: "tokens ((c # cs) @ v) = (c # cs) # tokens v"
        using True by simp
      have f: "tokens (c # cs) = [c # cs]"
        using True all by (intro tokens_word) auto
      show ?thesis
        unfolding e f by simp
    next
      case False
      then obtain x where "x \<in> set cs" "\<not> isword x"
        by blast
      then have "takeWhile isword (cs @ v) = takeWhile isword cs"
        "dropWhile isword (cs @ v) = dropWhile isword cs @ v"
        by (simp_all add: takeWhile_append1 dropWhile_append1)
      then show ?thesis using True 2 by simp
    qed
  next
    case False
    then show ?thesis using 2 by simp
  qed
qed

text \<open>A word token is followed by a token that is no word.\<close>

lemma tokens_split:
  "tokens s = a @ b \<Longrightarrow>
   tokens (concat b) = b \<and> (a \<noteq> [] \<and> isword (hd (last a)) \<longrightarrow> fresh (concat b))"
proof (induction s arbitrary: a rule: tokens.induct)
  case 1
  then show ?case by (simp add: fresh_simps)
next
  case (2 c cs)
  show ?case
  proof (cases a)
    case Nil
    then have "b = tokens (c # cs)" using 2(3) by simp
    then show ?thesis using Nil by (simp only: concat_tokens) simp
  next
    case (Cons t a')
    show ?thesis
    proof (cases "isword c")
      case True
      then have t: "t = c # takeWhile isword cs" and r: "tokens (dropWhile isword cs) = a' @ b"
        using 2(3) Cons by simp_all
      from "2.IH"(1) [OF True r] have
        ih: "tokens (concat b) = b" "a' \<noteq> [] \<and> isword (hd (last a')) \<longrightarrow> fresh (concat b)"
        by simp_all
      have "a' = [] \<Longrightarrow> fresh (concat b)"
      proof -
        assume "a' = []"
        then have "concat b = dropWhile isword cs"
          using r concat_tokens [of "dropWhile isword cs"] by simp
        then show ?thesis by (simp add: fresh_dropWhile)
      qed
      then show ?thesis
        using ih Cons by (cases "a' = []") simp_all
    next
      case False
      then have t: "t = [c]" and r: "tokens cs = a' @ b"
        using 2(3) Cons by simp_all
      from "2.IH"(2) [OF False r] have
        ih: "tokens (concat b) = b" "a' \<noteq> [] \<and> isword (hd (last a')) \<longrightarrow> fresh (concat b)"
        by simp_all
      then show ?thesis
        using Cons t False by (cases "a' = []") simp_all
    qed
  qed
qed

lemma tokens_nonempty: "t \<in> set (tokens s) \<Longrightarrow> t \<noteq> []"
  by (induction s rule: tokens.induct) (auto split: if_splits)

lemma last_token_word:
  "s \<noteq> [] \<Longrightarrow> isword (last s) \<Longrightarrow> isword (hd (last (tokens s)))"
proof (induction s rule: tokens.induct)
  case 1
  then show ?case by simp
next
  case (2 c cs)
  show ?case
  proof (cases "isword c")
    case w: True
    show ?thesis
    proof (cases "dropWhile isword cs = []")
      case e: True
      have "tokens (c # cs) = [c # takeWhile isword cs]"
        using w by (simp only: tokens.simps e if_True)
      then show ?thesis using w by simp
    next
      case False
      have "cs \<noteq> []"
        using False by auto
      then have "last (c # cs) = last (takeWhile isword cs @ dropWhile isword cs)"
        by simp
      also have "\<dots> = last (dropWhile isword cs)"
        using False by (rule last_appendR)
      finally have "last (c # cs) = last (dropWhile isword cs)" .
      then show ?thesis
        using 2 w False by (simp add: tokens_eq_Nil)
    qed
  next
    case False
    then have "cs \<noteq> []" using 2(4) by (cases cs) auto
    then show ?thesis
      using 2 False by (simp add: tokens_eq_Nil)
  qed
qed

lemma lower_concat: "lower (concat xs) = concat (map lower xs)"
  by (induction xs) (simp_all add: lower_def)

lemma lower_simps:
  "lower [] = []" "lower (c # cs) = lower_char c # lower cs" "length (lower s) = length s"
  "lower (take n s) = take n (lower s)"
  by (simp_all add: lower_def take_map)

lemma hd_lower: "s \<noteq> [] \<Longrightarrow> hd (lower s) = lower_char (hd s)"
  by (cases s) (simp_all add: lower_simps)

lemma last_lower: "s \<noteq> [] \<Longrightarrow> last (lower s) = lower_char (last s)"
  by (simp add: lower_def last_map)

lemma match_word_head:
  assumes "match_word p b s" "good_pattern p"
  shows "\<not> b \<and> s \<noteq> [] \<and> isword (hd s)"
proof -
  from assms have p: "p \<noteq> []" "isword (hd p)" and s: "s \<noteq> []"
    and l: "lower (take (length p) s) = lower p" and wb: "word_boundary b s"
    by (auto simp: match_word_def good_pattern_def)
  have "hd (lower (take (length p) s)) = lower_char (hd s)"
    using p s by (cases s; cases p) (simp_all add: lower_simps)
  then have "lower_char (hd s) = lower_char (hd p)"
    using l p by (simp add: hd_lower)
  then have "isword (hd s)"
    using p isword_lower_char [of "hd s"] isword_lower_char [of "hd p"] by simp
  then show ?thesis
    using wb s by (simp add: word_boundary_def)
qed

lemma match_word_tail:
  assumes "match_word p b s" "good_pattern p"
  shows "isword (last (take (length p) s)) \<and> fresh (drop (length p) s)"
proof -
  let ?m = "take (length p) s"
  from assms have p: "p \<noteq> []" "isword (last p)" and len: "length p \<le> length s"
    and l: "lower ?m = lower p"
    and wb: "word_boundary (isword (last ?m)) (drop (length p) s)"
    by (auto simp: match_word_def good_pattern_def)
  have m: "?m \<noteq> []"
    using p len by (cases s) auto
  have "lower_char (last ?m) = lower_char (last p)"
    using l m p last_lower [of ?m] last_lower [of p] by simp
  then have "isword (last ?m)"
    using p isword_lower_char [of "last ?m"] isword_lower_char [of "last p"] by simp
  then show ?thesis
    using wb by (auto simp: word_boundary_def fresh_def)
qed

lemma match_word_tokens:
  assumes "match_word p False s" "good_pattern p"
  shows "match_tokens p (tokens s) \<and>
     tokens (drop (length p) s) = drop (length (tokens (lower p))) (tokens s)"
proof -
  let ?m = "take (length p) s" and ?rest = "drop (length p) s"
  from assms have p: "p \<noteq> []" and l: "lower ?m = lower p"
    by (auto simp: match_word_def)
  have f: "fresh ?rest"
    using match_word_tail [OF assms] by simp
  have "tokens (?m @ ?rest) = tokens ?m @ tokens ?rest"
    by (rule tokens_append_fresh [OF f])
  then have ts: "tokens s = tokens ?m @ tokens ?rest"
    by simp
  have ml: "map lower (tokens ?m) = tokens (lower p)"
    using tokens_lower [of ?m] l by simp
  then have k: "length (tokens ?m) = length (tokens (lower p))"
    by (metis length_map)
  show ?thesis
    using p ts ml k by (simp add: match_tokens_def)
qed

lemma match_tokens_word:
  assumes "match_tokens p (tokens s)" "good_pattern p"
  shows "match_word p False s"
proof -
  define tp where "tp = tokens (lower p)"
  define a where "a = take (length tp) (tokens s)"
  define b where "b = drop (length tp) (tokens s)"
  define m where "m = concat a"
  define rest where "rest = concat b"
  from assms have p: "p \<noteq> []" "isword (hd p)" "isword (last p)"
    and k: "length tp \<le> length (tokens s)" and ml: "map lower a = tp"
    by (auto simp: match_tokens_def good_pattern_def tp_def a_def)
  have tp: "tp \<noteq> []"
    using p by (cases p) (simp_all add: tokens_eq_Nil lower_simps tp_def)
  have ab: "tokens s = a @ b"
    by (simp add: a_def b_def)
  have "concat (tokens s) = m @ rest"
    unfolding ab m_def rest_def by simp
  then have s: "s = m @ rest"
    by (simp only: concat_tokens)
  have "lower m = concat (map lower a)"
    unfolding m_def by (rule lower_concat)
  then have lm: "lower m = lower p"
    using ml concat_tokens [of "lower p"] by (simp add: tp_def)
  then have len: "length m = length p"
    by (metis lower_simps(3))
  have tk: "take (length p) s = m" and dr: "drop (length p) s = rest"
    unfolding s using len by simp_all
  have ne: "m \<noteq> []"
    using len p(1) by (cases m) auto
  have an: "a \<noteq> []"
    using ne by (auto simp: m_def)
  have "lower_char (hd m) = lower_char (hd p)"
    using lm ne p hd_lower [of m] hd_lower [of p] by simp
  then have "isword (hd m)"
    using p isword_lower_char [of "hd m"] isword_lower_char [of "hd p"] by simp
  then have wb1: "word_boundary False s"
    unfolding s using ne by (simp add: word_boundary_def)
  have "lower_char (last m) = lower_char (last p)"
    using lm ne p last_lower [of m] last_lower [of p] by simp
  then have lw: "isword (last m)"
    using p isword_lower_char [of "last m"] isword_lower_char [of "last p"] by simp
  have lp: "isword (hd (last tp))"
  proof -
    have "lower p \<noteq> []" "isword (last (lower p))"
      using p by (simp_all add: lower_def last_map isword_lower_char)
    then show ?thesis unfolding tp_def by (rule last_token_word)
  qed
  have "last a \<in> set (tokens s)"
    using an ab by auto
  then have la: "last a \<noteq> []"
    by (rule tokens_nonempty)
  have "lower (last a) = last tp"
    using ml an by (metis last_map)
  then have "lower_char (hd (last a)) = hd (last tp)"
    using la hd_lower [of "last a"] by simp
  then have "isword (hd (last a))"
    using lp isword_lower_char [of "hd (last a)"] by simp
  then have fr: "fresh rest"
    using tokens_split [OF ab] an by (simp add: rest_def)
  have wb2: "word_boundary (isword (last (take (length p) s))) (drop (length p) s)"
    unfolding tk dr using lw fr by (auto simp: word_boundary_def fresh_def)
  have le: "length p \<le> length s"
    unfolding s using len by simp
  have "lower (take (length p) s) = lower p"
    unfolding tk by (rule lm)
  with p(1) le wb1 wb2 show ?thesis
    unfolding match_word_def by blast
qed

lemma match_word_iff_tokens:
  "good_pattern p \<Longrightarrow> match_word p False s \<longleftrightarrow> match_tokens p (tokens s)"
  using match_word_tokens match_tokens_word by blast

lemma find_no_match:
  assumes "good_table T" "b \<or> s = [] \<or> \<not> isword (hd s)"
  shows "find (\<lambda>(p, r). match_word p b s) T = None"
proof -
  have "\<not> match_word p b s" if "(p, r) \<in> set T" for p r
  proof
    assume m: "match_word p b s"
    have "good_pattern p"
      using assms(1) that by (auto simp: good_table_def)
    from match_word_head [OF m this] assms(2) show False by simp
  qed
  then show ?thesis
    by (auto simp: find_None_iff)
qed

lemma replace_words_None:
  "find (\<lambda>(p, r). match_word p b (c # cs)) T = None \<Longrightarrow>
   replace_words T b (c # cs) = c # replace_words T (isword c) cs"
  by simp

lemma replace_words_Some:
  "find (\<lambda>(p, r). match_word p b (c # cs)) T = Some (p, r) \<Longrightarrow>
   replace_words T b (c # cs) =
     r @ replace_words T (isword (last (take (length p) (c # cs)))) (drop (length p) (c # cs))"
  by simp

declare replace_words.simps(2) [simp del]

lemma replace_words_nonword:
  "good_table T \<Longrightarrow> \<not> isword c \<Longrightarrow>
   replace_words T b (c # cs) = c # replace_words T False cs"
  using find_no_match [of T b "c # cs"] by (simp add: replace_words_None)

lemma replace_words_fresh_state:
  "good_table T \<Longrightarrow> fresh s \<Longrightarrow> replace_words T True s = replace_words T False s"
  by (cases s) (simp_all add: fresh_simps replace_words_nonword)

lemma replace_words_word_run:
  "good_table T \<Longrightarrow> \<forall>c \<in> set w. isword c \<Longrightarrow> fresh rest \<Longrightarrow>
   replace_words T True (w @ rest) = w @ replace_words T False rest"
proof (induction w)
  case Nil
  then show ?case by (simp add: replace_words_fresh_state)
next
  case (Cons c w)
  have "find (\<lambda>(p, r). match_word p True (c # w @ rest)) T = None"
    using find_no_match [OF Cons.prems(1), of True] by simp
  then have "replace_words T True (c # w @ rest) = c # replace_words T (isword c) (w @ rest)"
    by (rule replace_words_None)
  then show ?case
    using Cons by simp
qed

lemma replace_words_fresh:
  "good_table T \<Longrightarrow> fresh s \<Longrightarrow> fresh (replace_words T False s)"
  by (cases s) (simp_all add: fresh_simps replace_words_nonword)

lemma find_match_tokens:
  assumes "good_table T"
  shows "find (\<lambda>(p, r). match_word p False s) T = find (\<lambda>(p, r). match_tokens p (tokens s)) T"
proof (rule find_cong [OF refl])
  fix x assume "x \<in> set T"
  then have "good_pattern (fst x)"
    using assms by (auto simp: good_table_def)
  then show "(case x of (p, r) \<Rightarrow> match_word p False s) =
      (case x of (p, r) \<Rightarrow> match_tokens p (tokens s))"
    using match_word_iff_tokens [of "fst x" s] by (simp add: case_prod_unfold)
qed

lemma tokens_replace_words:
  assumes T: "good_table T"
  shows "tokens (replace_words T False s) = replace_tokens T (tokens s)"
proof (induction "length s" arbitrary: s rule: less_induct)
  case less
  show ?case
  proof (cases s)
    case Nil
    then show ?thesis by simp
  next
    case (Cons c cs)
    let ?f = "find (\<lambda>(p, r). match_word p False s) T"
    have fg: "?f = find (\<lambda>(p, r). match_tokens p (tokens s)) T"
      by (rule find_match_tokens [OF T])
    have "tokens s \<noteq> []"
      using Cons by (simp only: tokens_eq_Nil) simp
    then obtain t ts where ts: "tokens s = t # ts"
      by (cases "tokens s") auto
    show ?thesis
    proof (cases ?f)
      case (Some pr)
      obtain p r where pr: "pr = (p, r)" by (cases pr)
      from Some pr have m: "match_word p False s" and mem: "(p, r) \<in> set T"
        by (auto simp: find_Some_iff in_set_conv_nth)
      have gp: "good_pattern p"
        using T mem by (auto simp: good_table_def)
      let ?rest = "drop (length p) s"
      have st: "isword (last (take (length p) s))" and fr: "fresh ?rest"
        using match_word_tail [OF m gp] by simp_all
      have short: "length ?rest < length s"
        using m Cons by (simp add: match_word_def)
      have "replace_words T False s = r @ replace_words T True ?rest"
        using Some pr st Cons replace_words_Some [of False c cs T p r] by simp
      also have "\<dots> = r @ replace_words T False ?rest"
        by (simp add: replace_words_fresh_state [OF T fr])
      finally have "tokens (replace_words T False s) =
          tokens r @ tokens (replace_words T False ?rest)"
        by (simp add: tokens_append_fresh replace_words_fresh [OF T fr])
      also have "tokens (replace_words T False ?rest) = replace_tokens T (tokens ?rest)"
        by (rule less [OF short])
      also have "tokens ?rest = drop (length (tokens (lower p))) (tokens s)"
        using match_word_tokens [OF m gp] by simp
      finally show ?thesis
        using Some pr fg ts by simp
    next
      case None
      show ?thesis
      proof (cases "isword c")
        case True
        let ?w = "takeWhile isword cs" and ?rest = "dropWhile isword cs"
        have fr: "fresh ?rest" by (rule fresh_dropWhile)
        have short: "length ?rest < length s"
          using Cons by (simp add: length_dropWhile_le less_Suc_eq_le)
        have "replace_words T False s = c # replace_words T True (?w @ ?rest)"
          using None Cons True replace_words_None [of False c cs T] by simp
        also have "replace_words T True (?w @ ?rest) = ?w @ replace_words T False ?rest"
          by (rule replace_words_word_run [OF T _ fr]) (auto dest: set_takeWhileD)
        finally have "replace_words T False s = (c # ?w) @ replace_words T False ?rest"
          by simp
        then have "tokens (replace_words T False s) =
            tokens (c # ?w) @ tokens (replace_words T False ?rest)"
          by (simp only: tokens_append_fresh [OF replace_words_fresh [OF T fr]])
        also have "tokens (c # ?w) = [c # ?w]"
          using True by (intro tokens_word) (auto dest: set_takeWhileD)
        also have "tokens (replace_words T False ?rest) = replace_tokens T (tokens ?rest)"
          by (rule less [OF short])
        finally show ?thesis
          using None fg Cons True by simp
      next
        case False
        have "replace_words T False s = c # replace_words T False cs"
          using None Cons False replace_words_None [of False c cs T] by simp
        then have "tokens (replace_words T False s) = [c] # tokens (replace_words T False cs)"
          using False by simp
        also have "tokens (replace_words T False cs) = replace_tokens T (tokens cs)"
          using Cons by (intro less) simp
        finally show ?thesis
          using None fg Cons False by simp
      qed
    qed
  qed
qed

lemma replace_words_tokens:
  "good_table T \<Longrightarrow> replace_words T False s = concat (replace_tokens T (tokens s))"
  using tokens_replace_words [of T s] concat_tokens [of "replace_words T False s"] by simp

lemma re_sub_word_replace_words: "re_sub_word p r b s = replace_words [(p, r)] b s"
  by (induction p r b s rule: re_sub_word.induct) (simp_all add: replace_words.simps(2))

lemma replace_tokens_None:
  "find (\<lambda>(p, r). match_tokens p (t # ts)) T = None \<Longrightarrow>
   replace_tokens T (t # ts) = t # replace_tokens T ts"
  by simp

lemma replace_tokens_Some:
  "find (\<lambda>(p, r). match_tokens p (t # ts)) T = Some (p, r) \<Longrightarrow>
   replace_tokens T (t # ts) =
     tokens r @ replace_tokens T (drop (length (tokens (lower p))) (t # ts))"
  by simp

declare replace_tokens.simps(2) [simp del]

lemma lower_tokens_nonempty: "p \<noteq> [] \<Longrightarrow> tokens (lower p) \<noteq> []"
  by (cases p) (simp_all add: tokens_eq_Nil lower_simps)

lemma match_tokens_head:
  assumes "match_tokens p (t # ts)"
  shows "lower t \<in> set (tokens (lower p))"
proof -
  let ?tp = "tokens (lower p)"
  from assms have ne: "?tp \<noteq> []" and m: "map lower (take (length ?tp) (t # ts)) = ?tp"
    by (auto simp: match_tokens_def lower_tokens_nonempty)
  then obtain k where "length ?tp = Suc k"
    by (cases ?tp) auto
  with m have "lower t # map lower (take k ts) = ?tp"
    by simp
  then show ?thesis
    by (metis list.set_intros(1))
qed

lemma replace_tokens_copy:
  "\<forall>u \<in> set us. \<forall>(q, rq) \<in> set T. lower u \<notin> set (tokens (lower q)) \<Longrightarrow>
   replace_tokens T (us @ X) = us @ replace_tokens T X"
proof (induction us)
  case Nil
  then show ?case by simp
next
  case (Cons u us)
  have "\<not> match_tokens q (u # us @ X)" if "(q, rq) \<in> set T" for q rq
    using match_tokens_head [of q u "us @ X"] Cons.prems that by auto
  then have "find (\<lambda>(p, r). match_tokens p (u # us @ X)) T = None"
    by (auto simp: find_None_iff)
  then have "replace_tokens T (u # us @ X) = u # replace_tokens T (us @ X)"
    by (rule replace_tokens_None)
  then show ?case
    using Cons by simp
qed

lemma replace_tokens_reflect:
  assumes "\<forall>(q, rq) \<in> set T. rq \<noteq> [] \<and> (\<forall>u \<in> set (tokens rq). lower u \<notin> S)"
  shows "\<forall>u \<in> set (take j (replace_tokens T xs)). lower u \<in> S \<Longrightarrow>
     take j (replace_tokens T xs) = take j xs"
proof (induction j arbitrary: xs)
  case 0
  then show ?case by simp
next
  case (Suc j)
  show ?case
  proof (cases xs)
    case Nil
    then show ?thesis by simp
  next
    case (Cons x xs')
    show ?thesis
    proof (cases "find (\<lambda>(p, r). match_tokens p (x # xs')) T")
      case None
      then have e: "replace_tokens T xs = x # replace_tokens T xs'"
        using Cons by (simp add: replace_tokens_None)
      then have "\<forall>u \<in> set (take j (replace_tokens T xs')). lower u \<in> S"
        using Suc.prems by simp
      then have "take j (replace_tokens T xs') = take j xs'"
        by (rule Suc.IH)
      then show ?thesis
        using e Cons by simp
    next
      case (Some qr)
      obtain q rq where qr: "qr = (q, rq)" by (cases qr)
      then have mem: "(q, rq) \<in> set T"
        using Some by (auto simp: find_Some_iff in_set_conv_nth)
      then have ne: "tokens rq \<noteq> []" and out: "\<forall>u \<in> set (tokens rq). lower u \<notin> S"
        using assms by (auto simp: tokens_eq_Nil)
      obtain y ys where y: "tokens rq = y # ys"
        using ne by (cases "tokens rq") auto
      have "replace_tokens T xs =
          y # ys @ replace_tokens T (drop (length (tokens (lower q))) (x # xs'))"
        using Some qr Cons y replace_tokens_Some [of x xs' T q rq] by simp
      then have "lower y \<in> S"
        using Suc.prems by simp
      then show ?thesis
        using out y by simp
    qed
  qed
qed

lemma find_snoc:
  "find P (xs @ [e]) =
     (case find P xs of Some x \<Rightarrow> Some x | None \<Rightarrow> if P e then Some e else None)"
  by (induction xs) simp_all

lemma replace_tokens_absorb:
  assumes ab: "absorbable T p"
  shows "replace_tokens [(p, r)] (replace_tokens T ts) = replace_tokens (T @ [(p, r)]) ts"
proof (induction "length ts" arbitrary: ts rule: less_induct)
  case less
  let ?tp = "tokens (lower p)"
  let ?k = "length ?tp"
  have p: "p \<noteq> []" and tp: "?tp \<noteq> []"
    using ab by (auto simp: absorbable_def lower_tokens_nonempty)
  have k: "0 < ?k" using tp by simp
  have dis_q: "lower u \<notin> set (tokens (lower q))" if "lower u \<in> set ?tp" "(q, rq) \<in> set T"
    for u q rq
    using ab that by (auto simp: absorbable_def)
  have dis_r: "lower u \<notin> set ?tp" if "u \<in> set (tokens rq)" "(q, rq) \<in> set T" for u q rq
    using ab that by (fastforce simp: absorbable_def)
  have rne: "rq \<noteq> []" if "(q, rq) \<in> set T" for q rq
    using ab that by (auto simp: absorbable_def)
  show ?case
  proof (cases ts)
    case Nil
    then show ?thesis by simp
  next
    case (Cons t ts')
    let ?P = "\<lambda>(p, r). match_tokens p (t # ts')"
    have fa: "find ?P (T @ [(p, r)]) =
        (case find ?P T of Some x \<Rightarrow> Some x
         | None \<Rightarrow> if match_tokens p (t # ts') then Some (p, r) else None)"
      by (simp add: find_snoc)
    show ?thesis
    proof (cases "find ?P T")
      case (Some qr)
      obtain q rq where qr: "qr = (q, rq)" by (cases qr)
      then have mem: "(q, rq) \<in> set T" and m: "match_tokens q (t # ts')"
        using Some by (auto simp: find_Some_iff in_set_conv_nth)
      let ?rest = "drop (length (tokens (lower q))) (t # ts')"
      have "tokens (lower q) \<noteq> []"
        using m by (auto simp: match_tokens_def lower_tokens_nonempty)
      then have short: "length ?rest < length ts"
        using Cons by simp
      have "replace_tokens T ts = tokens rq @ replace_tokens T ?rest"
        using Some qr Cons by (simp add: replace_tokens_Some)
      moreover have "replace_tokens [(p, r)] (tokens rq @ replace_tokens T ?rest) =
          tokens rq @ replace_tokens [(p, r)] (replace_tokens T ?rest)"
        using dis_r [OF _ mem] by (intro replace_tokens_copy) auto
      moreover have "replace_tokens (T @ [(p, r)]) ts =
          tokens rq @ replace_tokens (T @ [(p, r)]) ?rest"
        using fa Some qr Cons by (simp add: replace_tokens_Some)
      ultimately show ?thesis
        using less [OF short] by simp
    next
      case None
      show ?thesis
      proof (cases "match_tokens p (t # ts')")
        case True
        let ?us = "take ?k (t # ts')" and ?rest = "drop ?k (t # ts')"
        from True have len: "?k \<le> length (t # ts')" and ml: "map lower ?us = ?tp"
          by (auto simp: match_tokens_def)
        have lus: "length ?us = ?k"
          using len by simp
        have short: "length ?rest < length ts"
          using Cons k by simp
        have mem: "lower u \<in> set ?tp" if "u \<in> set ?us" for u
          using that ml by (metis image_eqI list.set_map)
        have "replace_tokens T (?us @ ?rest) = ?us @ replace_tokens T ?rest"
          using mem dis_q by (intro replace_tokens_copy) auto
        then have c: "replace_tokens T ts = ?us @ replace_tokens T ?rest"
          using Cons by simp
        let ?Z = "replace_tokens T ?rest"
        have z: "?us @ ?Z \<noteq> []"
          using lus k by auto
        then obtain v vs where v: "?us @ ?Z = v # vs"
          by (cases "?us @ ?Z") auto
        have "match_tokens p (?us @ ?Z)"
          using p ml lus by (simp add: match_tokens_def)
        then have "find (\<lambda>(p, r). match_tokens p (v # vs)) [(p, r)] = Some (p, r)"
          using v by simp
        then have "replace_tokens [(p, r)] (v # vs) =
            tokens r @ replace_tokens [(p, r)] (drop ?k (v # vs))"
          by (rule replace_tokens_Some)
        then have "replace_tokens [(p, r)] (?us @ ?Z) = tokens r @ replace_tokens [(p, r)] ?Z"
          using v [symmetric] lus by simp
        moreover have "replace_tokens (T @ [(p, r)]) ts =
            tokens r @ replace_tokens (T @ [(p, r)]) ?rest"
          using fa None True Cons by (simp add: replace_tokens_Some)
        ultimately show ?thesis
          using c less [OF short] by simp
      next
        case False
        have c: "replace_tokens T ts = t # replace_tokens T ts'"
          using None Cons by (simp add: replace_tokens_None)
        let ?Z = "replace_tokens T ts'"
        have nm: "\<not> match_tokens p (t # ?Z)"
        proof
          assume m: "match_tokens p (t # ?Z)"
          then have len: "?k \<le> length (t # ?Z)" and ml: "map lower (take ?k (t # ?Z)) = ?tp"
            by (auto simp: match_tokens_def)
          obtain j where j: "?k = Suc j"
            using k by (cases ?k) auto
          have tl: "lower t # map lower (take j ?Z) = ?tp"
            using ml j by simp
          then have "\<forall>u \<in> set (take j ?Z). lower u \<in> set ?tp"
            by (metis image_eqI list.set_intros(2) list.set_map)
          moreover have "\<forall>(q, rq) \<in> set T. rq \<noteq> [] \<and> (\<forall>u \<in> set (tokens rq). lower u \<notin> set ?tp)"
            using rne dis_r by blast
          ultimately have e: "take j ?Z = take j ts'"
            by (intro replace_tokens_reflect [where S = "set ?tp"])
          have "length (take j ?Z) = j"
            using len j by simp
          then have "j \<le> length ts'"
            unfolding e by simp
          then have "match_tokens p (t # ts')"
            using p tl e j by (simp add: match_tokens_def)
          with False show False ..
        qed
        then have "find (\<lambda>(p, r). match_tokens p (t # ?Z)) [(p, r)] = None"
          by simp
        then have "replace_tokens [(p, r)] (t # ?Z) = t # replace_tokens [(p, r)] ?Z"
          by (rule replace_tokens_None)
        moreover have "replace_tokens (T @ [(p, r)]) ts = t # replace_tokens (T @ [(p, r)]) ts'"
          using fa None False Cons by (simp add: replace_tokens_None)
        moreover have "length ts' < length ts"
          using Cons by simp
        ultimately show ?thesis
          using c less by simp
      qed
    qed
  qed
qed

lemma replace_tokens_empty_table: "replace_tokens [] ts = ts"
  by (induction ts) (simp_all add: replace_tokens_None)

lemma sequential_snoc:
  assumes "sequential (T @ [e])"
  shows "sequential T" and "absorbable T (fst e)"
proof -
  show "sequential T"
    unfolding sequential_def
  proof (intro allI impI)
    fix i assume i: "i < length T"
    then have "absorbable (take i (T @ [e])) (fst ((T @ [e]) ! i))"
      using assms by (simp add: sequential_def)
    then show "absorbable (take i T) (fst (T ! i))"
      using i by (simp add: nth_append)
  qed
  have "length T < length (T @ [e])"
    by simp
  then have "absorbable (take (length T) (T @ [e])) (fst ((T @ [e]) ! length T))"
    using assms unfolding sequential_def by blast
  then show "absorbable T (fst e)"
    by simp
qed

lemma foldl_replace_tokens:
  "sequential T \<Longrightarrow> foldl (\<lambda>ts e. replace_tokens [e] ts) ts T = replace_tokens T ts"
proof (induction T rule: rev_induct)
  case Nil
  then show ?case by (simp add: replace_tokens_empty_table)
next
  case (snoc e T)
  obtain p r where e: "e = (p, r)" by (cases e)
  have "sequential T" and "absorbable T p"
    using sequential_snoc [OF snoc.prems] e by simp_all
  then show ?case
    using snoc.IH e by (simp add: replace_tokens_absorb)
qed

lemma tokens_foldl_re_sub_word:
  "good_table T \<Longrightarrow>
   tokens (foldl (\<lambda>text (pattern, replacement). re_sub_word pattern replacement False text) s T) =
     foldl (\<lambda>ts e. replace_tokens [e] ts) (tokens s) T"
proof (induction T arbitrary: s)
  case Nil
  then show ?case by simp
next
  case (Cons e T)
  obtain p r where e: "e = (p, r)" by (cases e)
  have "good_table [(p, r)]" and "good_table T"
    using Cons.prems e by (simp_all add: good_table_def)
  then show ?case
    using Cons.IH e by (simp add: re_sub_word_replace_words tokens_replace_words)
qed

lemma good_table_replacements: "good_table replacements"
  by code_simp

lemma sequential_replacements: "sequential replacements"
  by code_simp

text \<open>
  C9 (as amended). For every input string the imperative style transform is one pass over
  the text from left to right that replaces every case-insensitive word-boundary occurrence
  of "must" and "should" by "MUST", of "may" by "CAN", of "never" by "NEVER", of "always" by
  "ALWAYS", of "require" by "REQUIRE", and of "do not" and "don't" by "DO NOT", and copies
  all other text unchanged.
\<close>

theorem imperative_single_pass:
  "make_imperative text = replace_words replacements False text"
proof -
  have "tokens (make_imperative text) = replace_tokens replacements (tokens text)"
    unfolding make_imperative_def
    by (simp only: tokens_foldl_re_sub_word [OF good_table_replacements]
        foldl_replace_tokens [OF sequential_replacements])
  then have "concat (tokens (make_imperative text)) =
      concat (replace_tokens replacements (tokens text))"
    by simp
  then show ?thesis
    by (simp only: concat_tokens replace_words_tokens [OF good_table_replacements])
qed

text \<open>
  The claim as it was stated fails: it names no replacement of "require", and leaves all
  other text unchanged, but the dictionary of \<open>_make_imperative\<close> has the entry
  \<open>\brequire\b\<close>, and the word is put in capitals.
\<close>

theorem imperative_counterexample:
  "make_imperative ''We require tests.'' = ''We REQUIRE tests.'' \<and>
   replace_words claimed_replacements False ''We require tests.'' = ''We require tests.''"
  by code_simp

end
